theory Spec2Isabelle
  imports Complex_Main "HOL-Library.Monad_Syntax"
begin

section \<open>Data model\<close>

text \<open>
  The structures of \<^verbatim>\<open>a_star.h\<close>, as \<^verbatim>\<open>a_star.c\<close> uses them.  Node numbers are array
  indices and are modelled as natural numbers; \<^verbatim>\<open>double\<close> is modelled by the real
  numbers, so \<^verbatim>\<open>sqrt\<close>, \<^verbatim>\<open>+\<close> and \<^verbatim>\<open><=\<close> are exact.  A pointer to a node is the index
  of the slot that holds it (every node is allocated by \<^verbatim>\<open>node_create\<close> for one slot),
  \<^verbatim>\<open>NULL\<close> is \<open>None\<close>, and the linked list \<^verbatim>\<open>intlist_t\<close> is a HOL list.
\<close>

type_synonym intlist_t = "nat list"

record node_t =
  node_num :: nat
  city_name :: string
  latitude :: real
  longitude :: real
  neighbors :: intlist_t
  parent :: "nat option"
  f_cost :: real
  g_cost :: real
  h_cost :: real

record graph_t =
  num_nodes :: nat
  nodes :: "node_t option list"

text \<open>
  Reading \<^verbatim>\<open>graph->nodes[i]->...\<close> is defined only when \<open>i\<close> is inside the array and the
  slot is not \<^verbatim>\<open>NULL\<close>; everything else is undefined behaviour in C and the value
  \<open>None\<close> here.
\<close>

definition get_node :: "graph_t \<Rightarrow> nat \<Rightarrow> node_t option" where
  "get_node graph i = (if i < length (nodes graph) then nodes graph ! i else None)"

definition upd_node :: "graph_t \<Rightarrow> nat \<Rightarrow> (node_t \<Rightarrow> node_t) \<Rightarrow> graph_t option" where
  "upd_node graph i f =
     (case get_node graph i of
        None \<Rightarrow> None
      | Some nd \<Rightarrow> Some (graph\<lparr>nodes := (nodes graph)[i := Some (f nd)]\<rparr>))"

subsection \<open>Linked lists\<close>

definition cons :: "nat \<Rightarrow> intlist_t \<Rightarrow> intlist_t" where
  "cons val next = val # next"

fun insert_list :: "intlist_t \<Rightarrow> nat \<Rightarrow> intlist_t" where
  "insert_list [] val = cons val []"
| "insert_list (x # rest) val = x # insert_list rest val"

subsection \<open>Cost model\<close>

definition calculate_distance :: "graph_t \<Rightarrow> nat \<Rightarrow> nat \<Rightarrow> real option" where
  "calculate_distance graph num1 num2 =
     do {
       n1 \<leftarrow> get_node graph num1;
       n2 \<leftarrow> get_node graph num2;
       let y = latitude n1 - latitude n2;
       let x = longitude n1 - longitude n2;
       Some (sqrt (x ^ 2 + y ^ 2))
     }"

definition calculate_g_cost :: "graph_t \<Rightarrow> nat \<Rightarrow> nat \<Rightarrow> real option" where
  "calculate_g_cost graph cur target =
     do {
       c \<leftarrow> get_node graph cur;
       d \<leftarrow> calculate_distance graph cur target;
       Some (g_cost c + d)
     }"

definition fcost :: "graph_t \<Rightarrow> nat \<Rightarrow> real option" where
  "fcost graph cur = map_option f_cost (get_node graph cur)"

definition gcost :: "graph_t \<Rightarrow> nat \<Rightarrow> real option" where
  "gcost graph cur = map_option g_cost (get_node graph cur)"

definition set_h_cost :: "graph_t \<Rightarrow> nat \<Rightarrow> nat \<Rightarrow> graph_t option" where
  "set_h_cost graph cur end =
     do {
       d \<leftarrow> calculate_distance graph cur end;
       upd_node graph cur (\<lambda>nd. nd\<lparr>h_cost := d\<rparr>)
     }"

definition set_f_cost :: "graph_t \<Rightarrow> nat \<Rightarrow> graph_t option" where
  "set_f_cost graph cur = upd_node graph cur (\<lambda>nd. nd\<lparr>f_cost := g_cost nd + h_cost nd\<rparr>)"

subsection \<open>Graph construction\<close>

definition graph_create :: "nat \<Rightarrow> graph_t" where
  "graph_create n = \<lparr>num_nodes = n, nodes = replicate n None\<rparr>"

definition node_create :: "graph_t \<Rightarrow> nat \<Rightarrow> string \<Rightarrow> real \<Rightarrow> real \<Rightarrow> graph_t option" where
  "node_create graph num name lat lon =
     (if num < length (nodes graph)
      then Some (graph\<lparr>nodes := (nodes graph)
             [num := Some \<lparr>node_num = num, city_name = name, latitude = lat, longitude = lon,
                           neighbors = [], parent = None, f_cost = 0, g_cost = 0, h_cost = 0\<rparr>]\<rparr>)
      else None)"

definition add_edge :: "graph_t \<Rightarrow> nat \<Rightarrow> nat \<Rightarrow> graph_t option" where
  "add_edge graph node_num1 node_num2 =
     do {
       g1 \<leftarrow> upd_node graph node_num1 (\<lambda>nd. nd\<lparr>neighbors := insert_list (neighbors nd) node_num2\<rparr>);
       upd_node g1 node_num2 (\<lambda>nd. nd\<lparr>neighbors := insert_list (neighbors nd) node_num1\<rparr>)
     }"

section \<open>Open set and closed set\<close>

text \<open>
  \<^verbatim>\<open>util.h\<close> is not part of the sources.  The queue and the set are modelled from their
  contracts: the queue is the list of its live entries in insertion order, and the
  entry removed is the first one of least priority.
\<close>

type_synonym queue_t = "(nat \<times> real) list"
type_synonym set_t = "nat set"

text \<open>Modelled from the spec: \<^verbatim>\<open>queue_create\<close> of util.h, the empty open set.\<close>
definition queue_create :: queue_t where
  "queue_create = []"

text \<open>Modelled from the spec: \<^verbatim>\<open>queue_add\<close> of util.h, \<open>insert(id, priority)\<close> adds a new live entry.\<close>
definition queue_add :: "queue_t \<Rightarrow> nat \<Rightarrow> real \<Rightarrow> queue_t" where
  "queue_add q n p = q @ [(n, p)]"

text \<open>Modelled from the spec: \<^verbatim>\<open>queue_is_empty\<close> of util.h.\<close>
definition queue_is_empty :: "queue_t \<Rightarrow> bool" where
  "queue_is_empty q = (q = [])"

text \<open>Modelled from the spec: \<^verbatim>\<open>queue_query\<close> of util.h, \<open>contains(id)\<close>, the membership test.\<close>
definition queue_query :: "queue_t \<Rightarrow> nat \<Rightarrow> bool" where
  "queue_query q n = (n \<in> set (map fst q))"

text \<open>Modelled from the spec: \<^verbatim>\<open>queue_change_priority\<close> of util.h, \<open>decrease_priority(id, new_priority)\<close>
  updates the priority of the existing entry.\<close>
definition queue_change_priority :: "queue_t \<Rightarrow> nat \<Rightarrow> real \<Rightarrow> queue_t" where
  "queue_change_priority q n p = map (\<lambda>(m, x). if m = n then (m, p) else (m, x)) q"

text \<open>Modelled from the spec: the entry \<open>extract_min\<close> selects, one of smallest priority
  (the first such entry; the spec leaves ties to the implementation).\<close>
fun queue_min :: "queue_t \<Rightarrow> (nat \<times> real) option" where
  "queue_min [] = None"
| "queue_min (x # q) =
     (case queue_min q of
        None \<Rightarrow> Some x
      | Some m \<Rightarrow> if snd x \<le> snd m then Some x else Some m)"

text \<open>Modelled from the spec: \<^verbatim>\<open>queue_remove\<close> of util.h, \<open>extract_min()\<close> removes and returns
  the id with smallest priority, and fails when no entries remain.\<close>
definition queue_remove :: "queue_t \<Rightarrow> (nat \<times> queue_t) option" where
  "queue_remove q = map_option (\<lambda>m. (fst m, remove1 m q)) (queue_min q)"

text \<open>Modelled from the spec: \<^verbatim>\<open>set_create\<close>, \<^verbatim>\<open>set_add\<close> and \<^verbatim>\<open>set_query\<close> of util.h,
  \<open>add(id)\<close> and \<open>contains(id)\<close> with simple set semantics.\<close>
definition set_create :: set_t where
  "set_create = {}"

definition set_add :: "set_t \<Rightarrow> nat \<Rightarrow> set_t" where
  "set_add s n = insert n s"

definition set_query :: "set_t \<Rightarrow> nat \<Rightarrow> bool" where
  "set_query s n = (n \<in> s)"

section \<open>The search\<close>

text \<open>
  The state of \<^verbatim>\<open>a_star\<close>: the graph it mutates, its two local containers, and the
  place in the function body: at the test of the outer \<^verbatim>\<open>while\<close>, at the test of the
  neighbour loop (with \<^verbatim>\<open>curr\<close> and the rest of \<^verbatim>\<open>curr_list\<close>), or behind the outer loop.
  The variable \<^verbatim>\<open>curr\<close> of the source is written \<open>cur\<close>, because \<open>curr\<close> is a constant of HOL.
\<close>

datatype place = At_while | At_neighbors nat intlist_t | At_return

record search =
  graph :: graph_t
  open_set :: queue_t
  closed_set :: set_t
  place :: place

text \<open>Lines 241 to 243: the initialisation.\<close>

definition a_star_init :: "graph_t \<Rightarrow> nat \<Rightarrow> nat \<Rightarrow> search option" where
  "a_star_init g start_node_num end_node_num =
     do {
       g1 \<leftarrow> set_h_cost g start_node_num end_node_num;
       g2 \<leftarrow> set_f_cost g1 start_node_num;
       f \<leftarrow> fcost g2 start_node_num;
       Some \<lparr>graph = g2, open_set = queue_add queue_create start_node_num f,
             closed_set = set_create, place = At_while\<rparr>
     }"

text \<open>Lines 267 to 278: the second skip condition and the update of the neighbour.\<close>

definition update_neighbor :: "nat \<Rightarrow> nat \<Rightarrow> real \<Rightarrow> search \<Rightarrow> search option" where
  "update_neighbor cur neighbor potential_g st =
     (if set_query (closed_set st) neighbor then Some st
      else do {
        g2 \<leftarrow> upd_node (graph st) neighbor (\<lambda>nd. nd\<lparr>g_cost := potential_g\<rparr>);
        g3 \<leftarrow> set_f_cost g2 neighbor;
        g4 \<leftarrow> upd_node g3 neighbor (\<lambda>nd. nd\<lparr>parent := Some cur\<rparr>);
        f \<leftarrow> fcost g4 neighbor;
        if \<not> queue_query (open_set st) neighbor
        then Some (st\<lparr>graph := g4, open_set := queue_add (open_set st) neighbor f\<rparr>)
        else Some (st\<lparr>graph := g4, open_set := queue_change_priority (open_set st) neighbor f\<rparr>)
      })"

text \<open>Lines 256 to 278: one pass through the body of the neighbour loop.\<close>

definition relax :: "nat \<Rightarrow> nat \<Rightarrow> nat \<Rightarrow> search \<Rightarrow> search option" where
  "relax cur end_node_num neighbor st =
     do {
       g1 \<leftarrow> set_h_cost (graph st) neighbor end_node_num;
       potential_g \<leftarrow> calculate_g_cost g1 cur neighbor;
       if queue_query (open_set st) neighbor
       then do {
         gn \<leftarrow> gcost g1 neighbor;
         if gn \<le> potential_g then Some (st\<lparr>graph := g1\<rparr>)
         else update_neighbor cur neighbor potential_g (st\<lparr>graph := g1\<rparr>)
       }
       else update_neighbor cur neighbor potential_g (st\<lparr>graph := g1\<rparr>)
     }"

text \<open>One step of the two loops, from one loop test to the next.\<close>

definition step :: "nat \<Rightarrow> search \<Rightarrow> search option" where
  "step end_node_num st =
     (case place st of
        At_while \<Rightarrow>
          if queue_is_empty (open_set st) then Some (st\<lparr>place := At_return\<rparr>)
          else do {
            (cur, q) \<leftarrow> queue_remove (open_set st);
            if cur = end_node_num then Some (st\<lparr>open_set := q, place := At_return\<rparr>)
            else do {
              nd \<leftarrow> get_node (graph st) cur;
              Some (st\<lparr>open_set := q, place := At_neighbors cur (neighbors nd)\<rparr>)
            }
          }
      | At_neighbors cur [] \<Rightarrow>
          Some (st\<lparr>closed_set := set_add (closed_set st) cur, place := At_while\<rparr>)
      | At_neighbors cur (neighbor # curr_list) \<Rightarrow>
          map_option (\<lambda>st'. st'\<lparr>place := At_neighbors cur curr_list\<rparr>)
            (relax cur end_node_num neighbor st)
      | At_return \<Rightarrow> Some st)"


section \<open>Basic facts about the graph\<close>

lemma get_node_less: "get_node g i = Some nd \<Longrightarrow> i < length (nodes g)"
  by (auto simp: get_node_def split: if_splits)

lemma get_node_upd_node:
  "upd_node g i f = Some g' \<Longrightarrow>
   get_node g' j = (if j = i then map_option f (get_node g i) else get_node g j)"
  by (auto simp: upd_node_def get_node_def split: option.splits if_splits)

lemma upd_node_frame:
  "upd_node g i f = Some g' \<Longrightarrow> num_nodes g' = num_nodes g \<and> length (nodes g') = length (nodes g)"
  by (auto simp: upd_node_def split: option.splits)

lemma upd_node_Some: "get_node g i = Some nd \<Longrightarrow> \<exists>g'. upd_node g i f = Some g'"
  by (simp add: upd_node_def)

section \<open>Termination of the loops\<close>

text \<open>
  What is left to do: the entries of the open set, the nodes that can still be closed,
  and the nodes that can still be added to the open set.
\<close>

definition pending :: "search \<Rightarrow> nat set" where
  "pending st = {n. n < length (nodes (graph st)) \<and> n \<notin> closed_set st \<and>
                    (\<forall>rest. place st \<noteq> At_neighbors n rest)}"

definition unseen :: "search \<Rightarrow> nat set" where
  "unseen st = {n. n < length (nodes (graph st)) \<and> n \<notin> closed_set st \<and>
                   \<not> queue_query (open_set st) n}"

definition work_left :: "search \<Rightarrow> nat" where
  "work_left st = length (open_set st) + card (pending st) + card (unseen st)"

fun place_rank :: "place \<Rightarrow> nat" where
  "place_rank At_return = 0"
| "place_rank At_while = 1"
| "place_rank (At_neighbors cur curr_list) = 2 + length curr_list"

lemma queue_min_None: "queue_min q = None \<longleftrightarrow> q = []"
  by (induction q) (auto split: option.splits)

lemma queue_min_Some:
  "queue_min q = Some m \<Longrightarrow> m \<in> set q \<and> (\<forall>x\<in>set q. snd m \<le> snd x)"
proof (induction q arbitrary: m)
  case Nil
  then show ?case by simp
next
  case (Cons a q)
  show ?case
  proof (cases "queue_min q")
    case None
    with Cons.prems show ?thesis by (simp add: queue_min_None)
  next
    case (Some k)
    with Cons.IH [of k] Cons.prems show ?thesis
      by (fastforce split: if_splits)
  qed
qed

lemma queue_remove_Some:
  assumes "queue_remove q = Some (cur, q')"
  shows "\<exists>p. (cur, p) \<in> set q \<and> q' = remove1 (cur, p) q \<and> (\<forall>x\<in>set q. p \<le> snd x)"
proof -
  from assms obtain m where m: "queue_min q = Some m" and c: "cur = fst m" and q': "q' = remove1 m q"
    by (auto simp: queue_remove_def)
  from queue_min_Some [OF m] c q' show ?thesis
    by (cases m) auto
qed

lemma queue_remove_None: "queue_remove q = None \<longleftrightarrow> q = []"
  by (simp add: queue_remove_def queue_min_None)

lemma queue_query_remove1:
  "n \<noteq> fst m \<Longrightarrow> queue_query (remove1 m q) n = queue_query q n"
  by (induction q) (auto simp: queue_query_def)

lemma queue_query_remove1_imp: "queue_query (remove1 m q) n \<Longrightarrow> queue_query q n"
  unfolding queue_query_def using set_remove1_subset [of m q] by auto

lemma queue_query_add [simp]: "queue_query (queue_add q v f) n \<longleftrightarrow> n = v \<or> queue_query q n"
  by (auto simp: queue_query_def queue_add_def)

lemma queue_query_change [simp]: "queue_query (queue_change_priority q v f) n = queue_query q n"
proof -
  have "map fst (queue_change_priority q v f) = map fst q"
    by (induction q) (auto simp: queue_change_priority_def)
  then show ?thesis by (simp add: queue_query_def)
qed

lemma length_queue_add [simp]: "length (queue_add q v f) = Suc (length q)"
  by (simp add: queue_add_def)

lemma length_queue_change [simp]: "length (queue_change_priority q v f) = length q"
  by (simp add: queue_change_priority_def)


definition euclid :: "node_t \<Rightarrow> node_t \<Rightarrow> real" where
  "euclid a b = sqrt ((longitude a - longitude b) ^ 2 + (latitude a - latitude b) ^ 2)"

definition same_size :: "graph_t \<Rightarrow> graph_t \<Rightarrow> bool" where
  "same_size g g' \<longleftrightarrow> num_nodes g' = num_nodes g \<and> length (nodes g') = length (nodes g)"

lemma upd_node_effect:
  assumes "upd_node g i f = Some g'"
  shows "\<exists>nd. get_node g i = Some nd \<and> same_size g g' \<and>
           (\<forall>n. get_node g' n = (if n = i then Some (f nd) else get_node g n))"
  using assms by (auto simp: upd_node_def get_node_def same_size_def split: option.splits if_splits)

lemma calculate_distance_eq_Some:
  "calculate_distance g a b = Some d \<longleftrightarrow>
     (\<exists>na nb. get_node g a = Some na \<and> get_node g b = Some nb \<and> d = euclid na nb)"
  by (auto simp: calculate_distance_def euclid_def Let_def bind_eq_Some_conv)

lemma set_h_cost_effect:
  assumes "set_h_cost g v e = Some g'"
  shows "\<exists>nv ne. get_node g v = Some nv \<and> get_node g e = Some ne \<and> same_size g g' \<and>
           (\<forall>n. get_node g' n = (if n = v then Some (nv\<lparr>h_cost := euclid nv ne\<rparr>) else get_node g n))"
proof -
  from assms obtain d where d: "calculate_distance g v e = Some d"
    and u: "upd_node g v (\<lambda>nd. nd\<lparr>h_cost := d\<rparr>) = Some g'"
    by (auto simp: set_h_cost_def bind_eq_Some_conv)
  from d obtain nv ne where "get_node g v = Some nv" "get_node g e = Some ne" "d = euclid nv ne"
    by (auto simp: calculate_distance_eq_Some)
  with upd_node_effect [OF u] show ?thesis by auto
qed

lemma set_f_cost_effect:
  assumes "set_f_cost g v = Some g'"
  shows "\<exists>nv. get_node g v = Some nv \<and> same_size g g' \<and>
           (\<forall>n. get_node g' n = (if n = v then Some (nv\<lparr>f_cost := g_cost nv + h_cost nv\<rparr>) else get_node g n))"
  using upd_node_effect [OF assms [unfolded set_f_cost_def]] by auto

lemma same_size_trans: "same_size a b \<Longrightarrow> same_size b c \<Longrightarrow> same_size a c"
  by (simp add: same_size_def)

lemma same_size_refl: "same_size a a"
  by (simp add: same_size_def)

lemma update_neighbor_effect:
  assumes "update_neighbor cur v pg st = Some st'" and "get_node (graph st) v = Some nv"
  shows "closed_set st' = closed_set st \<and> place st' = place st \<and> same_size (graph st) (graph st') \<and>
     (\<forall>n. n \<noteq> v \<longrightarrow> get_node (graph st') n = get_node (graph st) n) \<and>
     (if v \<in> closed_set st then st' = st
      else get_node (graph st') v =
             Some (nv\<lparr>parent := Some cur, f_cost := pg + h_cost nv, g_cost := pg\<rparr>) \<and>
           open_set st' =
             (if queue_query (open_set st) v
              then queue_change_priority (open_set st) v (pg + h_cost nv)
              else queue_add (open_set st) v (pg + h_cost nv)))"
proof (cases "v \<in> closed_set st")
  case True
  with assms show ?thesis by (simp add: update_neighbor_def set_query_def same_size_refl)
next
  case False
  with assms(1) obtain g2 g3 g4 f where
    g2: "upd_node (graph st) v (\<lambda>nd. nd\<lparr>g_cost := pg\<rparr>) = Some g2" and
    g3: "set_f_cost g2 v = Some g3" and
    g4: "upd_node g3 v (\<lambda>nd. nd\<lparr>parent := Some cur\<rparr>) = Some g4" and
    f: "fcost g4 v = Some f" and
    st': "st' = (if \<not> queue_query (open_set st) v
        then st\<lparr>graph := g4, open_set := queue_add (open_set st) v f\<rparr>
        else st\<lparr>graph := g4, open_set := queue_change_priority (open_set st) v f\<rparr>)"
    by (auto simp: update_neighbor_def set_query_def bind_eq_Some_conv split: if_splits)
  note e2 = upd_node_effect [OF g2] and e3 = set_f_cost_effect [OF g3] and e4 = upd_node_effect [OF g4]
  have n2: "get_node g2 v = Some (nv\<lparr>g_cost := pg\<rparr>)" using e2 assms(2) by auto
  have n3: "get_node g3 v = Some (nv\<lparr>g_cost := pg, f_cost := pg + h_cost nv\<rparr>)"
    using e3 n2 by auto
  have n4: "get_node g4 v = Some (nv\<lparr>g_cost := pg, f_cost := pg + h_cost nv, parent := Some cur\<rparr>)"
    using e4 n3 by auto
  have ff: "f = pg + h_cost nv" using f n4 by (simp add: fcost_def)
  have others: "n \<noteq> v \<Longrightarrow> get_node g4 n = get_node (graph st) n" for n
    using e2 e3 e4 by auto
  have sz: "same_size (graph st) g4"
    using e2 e3 e4 by (blast intro: same_size_trans)
  show ?thesis using False st' n4 ff others sz by auto
qed

lemma relax_cases [consumes 1, case_names skip update]:
  assumes "relax cur e v st = Some st'"
  obtains
    (skip) nc nv ne where
      "get_node (graph st) cur = Some nc" "get_node (graph st) v = Some nv"
      "get_node (graph st) e = Some ne"
      "(queue_query (open_set st) v \<and> g_cost nv \<le> g_cost nc + euclid nc nv) \<or> v \<in> closed_set st"
      "get_node (graph st') = (get_node (graph st))(v \<mapsto> nv\<lparr>h_cost := euclid nv ne\<rparr>)"
      "same_size (graph st) (graph st')" "open_set st' = open_set st"
      "closed_set st' = closed_set st" "place st' = place st"
  | (update) nc nv ne where
      "get_node (graph st) cur = Some nc" "get_node (graph st) v = Some nv"
      "get_node (graph st) e = Some ne"
      "v \<notin> closed_set st"
      "queue_query (open_set st) v \<Longrightarrow> g_cost nc + euclid nc nv < g_cost nv"
      "get_node (graph st') = (get_node (graph st))(v \<mapsto>
         nv\<lparr>parent := Some cur, f_cost := g_cost nc + euclid nc nv + euclid nv ne,
            g_cost := g_cost nc + euclid nc nv, h_cost := euclid nv ne\<rparr>)"
      "same_size (graph st) (graph st')"
      "open_set st' =
         (if queue_query (open_set st) v
          then queue_change_priority (open_set st) v (g_cost nc + euclid nc nv + euclid nv ne)
          else queue_add (open_set st) v (g_cost nc + euclid nc nv + euclid nv ne))"
      "closed_set st' = closed_set st" "place st' = place st"
proof -
  from assms obtain g1 pg where
    g1: "set_h_cost (graph st) v e = Some g1" and
    pg: "calculate_g_cost g1 cur v = Some pg" and
    rest: "(if queue_query (open_set st) v
       then do {
         gn \<leftarrow> gcost g1 v;
         if gn \<le> pg then Some (st\<lparr>graph := g1\<rparr>)
         else update_neighbor cur v pg (st\<lparr>graph := g1\<rparr>)
       }
       else update_neighbor cur v pg (st\<lparr>graph := g1\<rparr>)) = Some st'"
    by (auto simp: relax_def bind_eq_Some_conv)
  from set_h_cost_effect [OF g1] obtain nv ne where
    nv: "get_node (graph st) v = Some nv" and ne: "get_node (graph st) e = Some ne" and
    sz1: "same_size (graph st) g1" and
    n1: "\<And>n. get_node g1 n = (if n = v then Some (nv\<lparr>h_cost := euclid nv ne\<rparr>) else get_node (graph st) n)"
    by blast
  from pg obtain nc1 nv1 where nc1: "get_node g1 cur = Some nc1" "get_node g1 v = Some nv1"
    "pg = g_cost nc1 + euclid nc1 nv1"
    by (auto simp: calculate_g_cost_def bind_eq_Some_conv calculate_distance_eq_Some)
  then obtain nc where nc: "get_node (graph st) cur = Some nc"
    and pg_eq: "pg = g_cost nc + euclid nc nv"
    using n1 [of cur] n1 [of v] nv by (auto simp: euclid_def split: if_splits)
  have gn: "gcost g1 v = Some (g_cost nv)"
    using n1 [of v] by (simp add: gcost_def)
  let ?st1 = "st\<lparr>graph := g1\<rparr>"
  have v1: "get_node (graph ?st1) v = Some (nv\<lparr>h_cost := euclid nv ne\<rparr>)"
    using n1 [of v] by simp
  have g1_fun: "get_node g1 = (get_node (graph st))(v \<mapsto> nv\<lparr>h_cost := euclid nv ne\<rparr>)"
    using n1 by auto
  show ?thesis
  proof (cases "queue_query (open_set st) v \<and> g_cost nv \<le> pg")
    case True
    with rest gn have "st' = ?st1" by auto
    with True nv ne nc pg_eq sz1 g1_fun show ?thesis by (intro skip [of nc nv ne]) auto
  next
    case False
    with rest gn have u: "update_neighbor cur v pg ?st1 = Some st'"
      by (auto split: if_splits)
    note eff = update_neighbor_effect [OF u v1]
    show ?thesis
    proof (cases "v \<in> closed_set st")
      case True
      with eff have "st' = ?st1" by simp
      with True nv ne nc pg_eq sz1 g1_fun show ?thesis by (intro skip [of nc nv ne]) auto
    next
      case notclosed: False
      have sz: "same_size (graph st) (graph st')"
        using eff sz1 by (auto intro: same_size_trans)
      have vnew: "get_node (graph st') v = Some (nv\<lparr>parent := Some cur,
            f_cost := g_cost nc + euclid nc nv + euclid nv ne,
            g_cost := g_cost nc + euclid nc nv, h_cost := euclid nv ne\<rparr>)"
        using eff notclosed pg_eq by simp
      have "n \<noteq> v \<Longrightarrow> get_node (graph st') n = get_node (graph st) n" for n
        using eff n1 by auto
      with vnew have gfun: "get_node (graph st') = (get_node (graph st))(v \<mapsto>
         nv\<lparr>parent := Some cur, f_cost := g_cost nc + euclid nc nv + euclid nv ne,
            g_cost := g_cost nc + euclid nc nv, h_cost := euclid nv ne\<rparr>)"
        by auto
      have op: "open_set st' =
         (if queue_query (open_set st) v
          then queue_change_priority (open_set st) v (g_cost nc + euclid nc nv + euclid nv ne)
          else queue_add (open_set st) v (g_cost nc + euclid nc nv + euclid nv ne))"
        using eff notclosed pg_eq by simp
      have lt: "queue_query (open_set st) v \<Longrightarrow> g_cost nc + euclid nc nv < g_cost nv"
        using False pg_eq by simp
      have "closed_set st' = closed_set st" "place st' = place st"
        using eff by simp_all
      with nc nv ne notclosed lt gfun sz op show ?thesis
        by (intro update [of nc nv ne])
    qed
  qed
qed

lemma finite_pending [simp]: "finite (pending st)"
  by (simp add: pending_def)

lemma finite_unseen [simp]: "finite (unseen st)"
  by (simp add: unseen_def)

lemma relax_work_left:
  assumes "relax cur e v st = Some st1" and "place st = At_neighbors cur (v # rest)"
  shows "work_left (st1\<lparr>place := At_neighbors cur rest\<rparr>) = work_left st"
proof -
  let ?st' = "st1\<lparr>place := At_neighbors cur rest\<rparr>"
  have same: "work_left ?st' = work_left st"
    if cl: "closed_set st1 = closed_set st" and sz: "same_size (graph st) (graph st1)"
      and q: "\<And>n. queue_query (open_set st1) n = queue_query (open_set st) n"
      and l: "length (open_set st1) = length (open_set st)"
  proof -
    have len: "length (nodes (graph st1)) = length (nodes (graph st))"
      using sz by (simp add: same_size_def)
    have "pending ?st' = pending st"
      using assms(2) cl len by (auto simp: pending_def)
    moreover have "unseen ?st' = unseen st"
      using cl len q by (auto simp: unseen_def)
    ultimately show ?thesis using l by (simp add: work_left_def)
  qed
  from assms(1) show ?thesis
  proof (cases rule: relax_cases)
    case (skip nc nv ne)
    show ?thesis
      by (rule same) (simp_all add: skip(6-8))
  next
    case (update nc nv ne)
    note sz = update(7) and cl = update(9) and op = update(8)
    show ?thesis
    proof (cases "queue_query (open_set st) v")
      case True
      show ?thesis
        by (rule same) (simp_all add: sz cl op True)
    next
      case False
      have len: "length (nodes (graph st1)) = length (nodes (graph st))"
        using sz by (simp add: same_size_def)
      have pend: "pending ?st' = pending st"
        using assms(2) cl len by (auto simp: pending_def)
      have vin: "v \<in> unseen st"
        using update(4) False get_node_less [OF update(2)] by (simp add: unseen_def)
      have "unseen ?st' = unseen st - {v}"
        using cl op False len by (auto simp: unseen_def)
      moreover have "0 < card (unseen st)"
        using vin by (auto simp: card_gt_0_iff)
      ultimately have "Suc (card (unseen ?st')) = card (unseen st)"
        using vin by simp
      then show ?thesis
        using op False pend by (simp add: work_left_def)
    qed
  qed
qed

lemma dequeue_work_left:
  assumes "queue_remove (open_set st) = Some (cur, q)" and "place st = At_while"
  shows "work_left (st\<lparr>open_set := q, place := At_return\<rparr>) \<le> work_left st"
    and "cur < length (nodes (graph st)) \<Longrightarrow>
         work_left (st\<lparr>open_set := q, place := At_neighbors cur ns\<rparr>) < work_left st"
proof -
  from queue_remove_Some [OF assms(1)] obtain p where
    p: "(cur, p) \<in> set (open_set st)" and q: "q = remove1 (cur, p) (open_set st)"
    by blast
  have lenq: "Suc (length q) = length (open_set st)"
    using p q length_pos_if_in_set [OF p] by (simp add: length_remove1)
  have qq: "n \<noteq> cur \<Longrightarrow> queue_query q n = queue_query (open_set st) n" for n
    using queue_query_remove1 [of n "(cur, p)" "open_set st"] q by simp
  let ?r = "st\<lparr>open_set := q, place := At_return\<rparr>"
  have "pending ?r = pending st"
    using assms(2) by (auto simp: pending_def)
  moreover have "unseen ?r \<subseteq> insert cur (unseen st)"
    using qq by (auto simp: unseen_def)
  then have "card (unseen ?r) \<le> Suc (card (unseen st))"
    using card_mono [of "insert cur (unseen st)" "unseen ?r"] by (simp add: card_insert_if split: if_splits)
  ultimately show "work_left ?r \<le> work_left st"
    using lenq by (simp add: work_left_def)
next
  assume cur: "cur < length (nodes (graph st))"
  from queue_remove_Some [OF assms(1)] obtain p where
    p: "(cur, p) \<in> set (open_set st)" and q: "q = remove1 (cur, p) (open_set st)"
    by blast
  have lenq: "Suc (length q) = length (open_set st)"
    using p q length_pos_if_in_set [OF p] by (simp add: length_remove1)
  have qq: "n \<noteq> cur \<Longrightarrow> queue_query q n = queue_query (open_set st) n" for n
    using queue_query_remove1 [of n "(cur, p)" "open_set st"] q by simp
  let ?n = "st\<lparr>open_set := q, place := At_neighbors cur ns\<rparr>"
  show "work_left ?n < work_left st"
  proof (cases "cur \<in> closed_set st")
    case True
    have "pending ?n = pending st"
      using assms(2) True by (auto simp: pending_def)
    moreover have "unseen ?n \<subseteq> unseen st"
    proof
      fix x assume x: "x \<in> unseen ?n"
      with True have "x \<noteq> cur" by (auto simp: unseen_def)
      with x qq [of x] show "x \<in> unseen st" by (simp add: unseen_def)
    qed
    then have "card (unseen ?n) \<le> card (unseen st)"
      by (simp add: card_mono)
    ultimately show ?thesis using lenq by (simp add: work_left_def)
  next
    case False
    have "pending ?n = pending st - {cur}"
      using assms(2) by (auto simp: pending_def)
    moreover have "cur \<in> pending st"
      using assms(2) False cur by (simp add: pending_def)
    moreover have "0 < card (pending st)"
      using \<open>cur \<in> pending st\<close> by (auto simp: card_gt_0_iff)
    ultimately have "Suc (card (pending ?n)) = card (pending st)"
      by simp
    moreover have "unseen ?n \<subseteq> insert cur (unseen st)"
      using qq by (auto simp: unseen_def)
    then have "card (unseen ?n) \<le> Suc (card (unseen st))"
      using card_mono [of "insert cur (unseen st)" "unseen ?n"] by (simp add: card_insert_if split: if_splits)
    ultimately show ?thesis using lenq by (simp add: work_left_def)
  qed
qed

lemma close_work_left:
  assumes "place st = At_neighbors cur []"
  shows "work_left (st\<lparr>closed_set := set_add (closed_set st) cur, place := At_while\<rparr>) \<le> work_left st"
proof -
  let ?c = "st\<lparr>closed_set := set_add (closed_set st) cur, place := At_while\<rparr>"
  have "pending ?c = pending st"
    using assms by (auto simp: pending_def set_add_def)
  moreover have "unseen ?c \<subseteq> unseen st"
    by (auto simp: unseen_def set_add_def)
  then have "card (unseen ?c) \<le> card (unseen st)"
    by (simp add: card_mono)
  ultimately show ?thesis by (simp add: work_left_def)
qed

lemma step_decreases:
  assumes "place st \<noteq> At_return" and "step e st = Some st'"
  shows "work_left st' < work_left st \<or>
         (work_left st' = work_left st \<and> place_rank (place st') < place_rank (place st))"
proof (cases "place st")
  case At_return
  with assms show ?thesis by simp
next
  case At_while
  show ?thesis
  proof (cases "queue_is_empty (open_set st)")
    case True
    with assms At_while have "st' = st\<lparr>place := At_return\<rparr>"
      by (simp add: step_def)
    moreover have "pending (st\<lparr>place := At_return\<rparr>) = pending st"
      using At_while by (auto simp: pending_def)
    moreover have "unseen (st\<lparr>place := At_return\<rparr>) = unseen st"
      by (auto simp: unseen_def)
    ultimately show ?thesis using At_while by (simp add: work_left_def)
  next
    case False
    with assms At_while obtain cur q where
      rm: "queue_remove (open_set st) = Some (cur, q)" and
      st': "(if cur = e then Some (st\<lparr>open_set := q, place := At_return\<rparr>)
            else do { nd \<leftarrow> get_node (graph st) cur;
                      Some (st\<lparr>open_set := q, place := At_neighbors cur (neighbors nd)\<rparr>) }) = Some st'"
      by (auto simp: step_def bind_eq_Some_conv)
    show ?thesis
    proof (cases "cur = e")
      case True
      with st' have "st' = st\<lparr>open_set := q, place := At_return\<rparr>" by simp
      with dequeue_work_left(1) [OF rm At_while] At_while show ?thesis by auto
    next
      case False
      with st' obtain nd where nd: "get_node (graph st) cur = Some nd"
        and "st' = st\<lparr>open_set := q, place := At_neighbors cur (neighbors nd)\<rparr>"
        by (auto simp: bind_eq_Some_conv)
      with dequeue_work_left(2) [OF rm At_while get_node_less [OF nd]] show ?thesis by simp
    qed
  qed
next
  case (At_neighbors cur ns)
  show ?thesis
  proof (cases ns)
    case Nil
    with assms At_neighbors have "st' = st\<lparr>closed_set := set_add (closed_set st) cur, place := At_while\<rparr>"
      by (simp add: step_def)
    with close_work_left [of st cur] At_neighbors Nil show ?thesis by auto
  next
    case (Cons v rest)
    with assms At_neighbors obtain st1 where r: "relax cur e v st = Some st1"
      and "st' = st1\<lparr>place := At_neighbors cur rest\<rparr>"
      by (auto simp: step_def)
    with relax_work_left [OF r] At_neighbors Cons show ?thesis by simp
  qed
qed

function a_star_loop :: "nat \<Rightarrow> search \<Rightarrow> search option" where
  "a_star_loop end_node_num st =
     (if place st = At_return then Some st
      else case step end_node_num st of
             None \<Rightarrow> None
           | Some st' \<Rightarrow> a_star_loop end_node_num st')"
  by pat_completeness auto
termination
proof (relation "measures [\<lambda>(e, st). work_left st, \<lambda>(e, st). place_rank (place st)]")
  show "wf (measures [\<lambda>(e, st). work_left st, \<lambda>(e, st). place_rank (place st)])"
    by simp
next
  fix end_node_num st st'
  assume "place st \<noteq> At_return" and "step end_node_num st = Some st'"
  from step_decreases [OF this]
  show "((end_node_num, st'), (end_node_num, st))
          \<in> measures [\<lambda>(e, st). work_left st, \<lambda>(e, st). place_rank (place st)]"
    by auto
qed


definition a_star_run :: "graph_t \<Rightarrow> nat \<Rightarrow> nat \<Rightarrow> search option" where
  "a_star_run g start_node_num end_node_num =
     do {
       st \<leftarrow> a_star_init g start_node_num end_node_num;
       a_star_loop end_node_num st
     }"

definition a_star :: "graph_t \<Rightarrow> nat \<Rightarrow> nat \<Rightarrow> real option" where
  "a_star g start_node_num end_node_num =
     do {
       st \<leftarrow> a_star_run g start_node_num end_node_num;
       gc \<leftarrow> gcost (graph st) end_node_num;
       if gc = 0 then Some (- 1) else fcost (graph st) end_node_num
     }"

lemma insert_list_append: "insert_list xs v = xs @ [v]"
  by (induction xs) (simp_all add: cons_def)

text \<open>The state \<open>k\<close> steps after \<open>st\<close>: the points a run passes through.\<close>

fun steps :: "nat \<Rightarrow> nat \<Rightarrow> search \<Rightarrow> search option" where
  "steps end_node_num 0 st = Some st"
| "steps end_node_num (Suc k) st =
     (case step end_node_num st of
        None \<Rightarrow> None
      | Some st' \<Rightarrow> steps end_node_num k st')"

text \<open>
  The number of calls of \<^verbatim>\<open>queue_remove\<close> from a state on.  The source keeps no such
  counter; it is defined along the loop to state how often the loop extracts a node.
\<close>

function removals :: "nat \<Rightarrow> search \<Rightarrow> nat" where
  "removals end_node_num st =
     (if place st = At_return then 0
      else case step end_node_num st of
             None \<Rightarrow> 0
           | Some st' \<Rightarrow>
               (if place st = At_while \<and> \<not> queue_is_empty (open_set st) then 1 else 0)
               + removals end_node_num st')"
  by pat_completeness auto
termination
proof (relation "measures [\<lambda>(e, st). work_left st, \<lambda>(e, st). place_rank (place st)]")
  show "wf (measures [\<lambda>(e, st). work_left st, \<lambda>(e, st). place_rank (place st)])"
    by simp
next
  fix end_node_num st st'
  assume "place st \<noteq> At_return" and "step end_node_num st = Some st'"
  from step_decreases [OF this]
  show "((end_node_num, st'), (end_node_num, st))
          \<in> measures [\<lambda>(e, st). work_left st, \<lambda>(e, st). place_rank (place st)]"
    by auto
qed

declare removals.simps [simp del]

section \<open>Graphs, paths and distances\<close>

definition valid :: "graph_t \<Rightarrow> nat \<Rightarrow> bool" where
  "valid g n \<longleftrightarrow> get_node g n \<noteq> None"

definition edge :: "graph_t \<Rightarrow> nat \<Rightarrow> nat \<Rightarrow> bool" where
  "edge g u v \<longleftrightarrow> (case get_node g u of None \<Rightarrow> False | Some nd \<Rightarrow> v \<in> set (neighbors nd))"

definition distance :: "graph_t \<Rightarrow> nat \<Rightarrow> nat \<Rightarrow> real" where
  "distance g u v = (case calculate_distance g u v of None \<Rightarrow> 0 | Some d \<Rightarrow> d)"

fun path :: "graph_t \<Rightarrow> nat list \<Rightarrow> bool" where
  "path g [] = False"
| "path g [u] = valid g u"
| "path g (u # v # p) = (edge g u v \<and> path g (v # p))"

fun path_length :: "graph_t \<Rightarrow> nat list \<Rightarrow> real" where
  "path_length g [] = 0"
| "path_length g [u] = 0"
| "path_length g (u # v # p) = distance g u v + path_length g (v # p)"

definition connects :: "graph_t \<Rightarrow> nat \<Rightarrow> nat \<Rightarrow> nat list \<Rightarrow> bool" where
  "connects g s e p \<longleftrightarrow> path g p \<and> hd p = s \<and> last p = e"

definition reachable :: "graph_t \<Rightarrow> nat \<Rightarrow> nat \<Rightarrow> bool" where
  "reachable g s e \<longleftrightarrow> (\<exists>p. connects g s e p)"

definition shortest :: "graph_t \<Rightarrow> nat \<Rightarrow> nat \<Rightarrow> real \<Rightarrow> bool" where
  "shortest g s e d \<longleftrightarrow>
     (\<exists>p. connects g s e p \<and> path_length g p = d) \<and>
     (\<forall>p. connects g s e p \<longrightarrow> d \<le> path_length g p)"

definition well_formed :: "graph_t \<Rightarrow> bool" where
  "well_formed g \<longleftrightarrow>
     (\<forall>slot\<in>set (nodes g).
        case slot of None \<Rightarrow> True | Some nd \<Rightarrow> \<forall>v\<in>set (neighbors nd). valid g v)"

definition fresh :: "graph_t \<Rightarrow> bool" where
  "fresh g \<longleftrightarrow>
     (\<forall>slot\<in>set (nodes g).
        case slot of
          None \<Rightarrow> True
        | Some nd \<Rightarrow> parent nd = None \<and> f_cost nd = 0 \<and> g_cost nd = 0 \<and> h_cost nd = 0)"

subsection \<open>Some graphs\<close>

text \<open>A node as \<^verbatim>\<open>node_create\<close> and \<^verbatim>\<open>add_edge\<close> leave it: zero costs, no parent.\<close>

definition city :: "nat \<Rightarrow> string \<Rightarrow> real \<Rightarrow> real \<Rightarrow> intlist_t \<Rightarrow> node_t option" where
  "city n name lat lon ns =
     Some \<lparr>node_num = n, city_name = name, latitude = lat, longitude = lon, neighbors = ns,
           parent = None, f_cost = 0, g_cost = 0, h_cost = 0\<rparr>"

definition unit_square :: graph_t where
  "unit_square = \<lparr>num_nodes = 4, nodes =
     [city 0 ''A'' 0 0 [1, 3], city 1 ''B'' 1 0 [0, 2],
      city 2 ''C'' 1 1 [1, 3], city 3 ''D'' 0 1 [2, 0]]\<rparr>"

definition lone_city :: graph_t where
  "lone_city = \<lparr>num_nodes = 1, nodes = [city 0 ''A'' 0 0 []]\<rparr>"

definition lone_city_loop :: graph_t where
  "lone_city_loop = \<lparr>num_nodes = 1, nodes = [city 0 ''A'' 0 0 [0, 0]]\<rparr>"

definition two_cities :: graph_t where
  "two_cities = \<lparr>num_nodes = 2, nodes = [city 0 ''A'' 0 0 [1], city 1 ''B'' 3 4 [0]]\<rparr>"

definition twin_cities :: graph_t where
  "twin_cities = \<lparr>num_nodes = 2, nodes = [city 0 ''A'' 1 1 [1], city 1 ''B'' 1 1 [0]]\<rparr>"

definition three_cities :: graph_t where
  "three_cities = \<lparr>num_nodes = 3, nodes =
     [city 0 ''A'' 0 0 [1], city 1 ''B'' 0 1 [0, 2], city 2 ''C'' 0 2 [1]]\<rparr>"

definition loop_triangle :: graph_t where
  "loop_triangle = \<lparr>num_nodes = 3, nodes =
     [city 0 ''A'' 0 0 [0, 0, 1], city 1 ''B'' 3 0 [0, 2], city 2 ''C'' 3 4 [1]]\<rparr>"

definition mainland_island :: graph_t where
  "mainland_island = \<lparr>num_nodes = 3, nodes =
     [city 0 ''A'' 0 0 [1], city 1 ''B'' 0 1 [0], city 2 ''C'' 5 5 []]\<rparr>"

text \<open>The search from 0 to 1 on \<open>twin_cities\<close>, three steps after the start.\<close>

definition twin_cities_found :: search where
  "twin_cities_found = the (a_star_init twin_cities 0 1 \<bind> steps 1 3)"

text \<open>The search from 0 to 2 on \<open>loop_triangle\<close>, five steps after the start.\<close>

definition loop_triangle_closed :: search where
  "loop_triangle_closed = the (a_star_init loop_triangle 0 2 \<bind> steps 2 5)"

lemmas build_defs = graph_create_def node_create_def add_edge_def upd_node_def get_node_def
  cons_def city_def eval_nat_numeral

lemmas search_defs = a_star_def a_star_run_def a_star_init_def step_def relax_def update_neighbor_def
  set_h_cost_def set_f_cost_def calculate_g_cost_def calculate_distance_def gcost_def fcost_def
  upd_node_def get_node_def queue_add_def queue_create_def queue_is_empty_def queue_query_def
  queue_change_priority_def queue_remove_def set_create_def set_add_def set_query_def city_def

lemma sqrt_25: "sqrt 25 = 5"
  using real_sqrt_abs [of 5] by simp

lemma sqrt_9: "sqrt 9 = 3"
  using real_sqrt_abs [of 3] by simp

lemma sqrt_16: "sqrt 16 = 4"
  using real_sqrt_abs [of 4] by simp

text \<open>Each of them is what the construction interface builds.\<close>

lemma unit_square_built:
  "do {
     g \<leftarrow> node_create (graph_create 4) 0 ''A'' 0 0;
     g \<leftarrow> node_create g 1 ''B'' 1 0;
     g \<leftarrow> node_create g 2 ''C'' 1 1;
     g \<leftarrow> node_create g 3 ''D'' 0 1;
     g \<leftarrow> add_edge g 0 1;
     g \<leftarrow> add_edge g 1 2;
     g \<leftarrow> add_edge g 2 3;
     add_edge g 3 0
   } = Some unit_square"
  by (simp add: unit_square_def build_defs)

lemma lone_city_built: "node_create (graph_create 1) 0 ''A'' 0 0 = Some lone_city"
  by (simp add: lone_city_def build_defs)

lemma two_cities_built:
  "do {
     g \<leftarrow> node_create (graph_create 2) 0 ''A'' 0 0;
     g \<leftarrow> node_create g 1 ''B'' 3 4;
     add_edge g 0 1
   } = Some two_cities"
  by (simp add: two_cities_def build_defs)

lemma twin_cities_built:
  "do {
     g \<leftarrow> node_create (graph_create 2) 0 ''A'' 1 1;
     g \<leftarrow> node_create g 1 ''B'' 1 1;
     add_edge g 0 1
   } = Some twin_cities"
  by (simp add: twin_cities_def build_defs)

lemma three_cities_built:
  "do {
     g \<leftarrow> node_create (graph_create 3) 0 ''A'' 0 0;
     g \<leftarrow> node_create g 1 ''B'' 0 1;
     g \<leftarrow> node_create g 2 ''C'' 0 2;
     g \<leftarrow> add_edge g 0 1;
     add_edge g 1 2
   } = Some three_cities"
  by (simp add: three_cities_def build_defs)

lemma mainland_island_built:
  "do {
     g \<leftarrow> node_create (graph_create 3) 0 ''A'' 0 0;
     g \<leftarrow> node_create g 1 ''B'' 0 1;
     g \<leftarrow> node_create g 2 ''C'' 5 5;
     add_edge g 0 1
   } = Some mainland_island"
  by (simp add: mainland_island_def build_defs)

lemma loop_triangle_built:
  "do {
     g \<leftarrow> node_create (graph_create 3) 0 ''A'' 0 0;
     g \<leftarrow> node_create g 1 ''B'' 3 0;
     g \<leftarrow> node_create g 2 ''C'' 3 4;
     g \<leftarrow> add_edge g 0 0;
     g \<leftarrow> add_edge g 0 1;
     add_edge g 1 2
   } = Some loop_triangle"
  by (simp add: loop_triangle_def build_defs)

section \<open>Building the graph\<close>

text \<open>
  C4.  The claim says that one call appends \<open>b\<close> exactly once to the list of \<open>a\<close>, for every
  pair of valid node numbers.  For \<open>a = b\<close> both appends of \<^verbatim>\<open>add_edge\<close> go to the same
  list, which gains two entries.  What holds for all valid \<open>a\<close> and \<open>b\<close>: the call succeeds,
  the list of every node \<open>n\<close> becomes its old list, followed by \<open>b\<close> when \<open>n = a\<close>, followed
  by \<open>a\<close> when \<open>n = b\<close>, and nothing else of any node changes.  So for \<open>a \<noteq> b\<close> each of
  the two lists gains exactly one entry at its end, and for \<open>a = b\<close> the one list gains
  \<open>a\<close> twice.
\<close>

theorem add_edge_appends:
  assumes "get_node g a = Some na" and "get_node g b = Some nb"
  shows "\<exists>g'. add_edge g a b = Some g' \<and> num_nodes g' = num_nodes g \<and>
           length (nodes g') = length (nodes g) \<and>
           (\<forall>n. get_node g' n =
              map_option (\<lambda>nd. nd\<lparr>neighbors := neighbors nd @ (if n = a then [b] else [])
                                        @ (if n = b then [a] else [])\<rparr>) (get_node g n))"
proof -
  obtain g1 where g1: "upd_node g a (\<lambda>nd. nd\<lparr>neighbors := insert_list (neighbors nd) b\<rparr>) = Some g1"
    using upd_node_Some [OF assms(1)] by blast
  have "get_node g1 b \<noteq> None"
    using get_node_upd_node [OF g1, of b] assms by auto
  then obtain g2 where g2: "upd_node g1 b (\<lambda>nd. nd\<lparr>neighbors := insert_list (neighbors nd) a\<rparr>) = Some g2"
    using upd_node_Some by blast
  have "add_edge g a b = Some g2"
    by (simp add: add_edge_def g1 g2)
  moreover have "num_nodes g2 = num_nodes g" "length (nodes g2) = length (nodes g)"
    using upd_node_frame [OF g1] upd_node_frame [OF g2] by simp_all
  moreover have "get_node g2 n =
              map_option (\<lambda>nd. nd\<lparr>neighbors := neighbors nd @ (if n = a then [b] else [])
                                        @ (if n = b then [a] else [])\<rparr>) (get_node g n)" for n
    using get_node_upd_node [OF g1, of n] get_node_upd_node [OF g2, of n]
    by (cases "get_node g n") (auto simp: insert_list_append)
  ultimately show ?thesis by blast
qed

theorem add_edge_appends_witness:
  "get_node two_cities 0 \<noteq> None \<and> get_node two_cities 1 \<noteq> None \<and>
   (\<exists>g'. add_edge two_cities 0 1 = Some g' \<and>
      map_option neighbors (get_node g' 0) = Some [1, 1] \<and>
      map_option neighbors (get_node g' 1) = Some [0, 0])"
proof -
  obtain na nb where a: "get_node two_cities 0 = Some na" and b: "get_node two_cities 1 = Some nb"
    and nbrs: "neighbors na = [1]" "neighbors nb = [0]"
    by (auto simp: two_cities_def get_node_def city_def)
  from add_edge_appends [OF a b] obtain g' where
    "add_edge two_cities 0 1 = Some g'" and
    n: "\<And>n. get_node g' n =
              map_option (\<lambda>nd. nd\<lparr>neighbors := neighbors nd @ (if n = 0 then [1] else [])
                                        @ (if n = 1 then [0] else [])\<rparr>) (get_node two_cities n)"
    by blast
  moreover have "map_option neighbors (get_node g' 0) = Some [1, 1]"
    using n [of 0] a nbrs by simp
  moreover have "map_option neighbors (get_node g' 1) = Some [0, 0]"
    using n [of 1] b nbrs by simp
  ultimately show ?thesis using a b by auto
qed

theorem add_edge_self_counterexample:
  "get_node lone_city 0 \<noteq> None \<and> add_edge lone_city 0 0 = Some lone_city_loop \<and>
   map_option neighbors (get_node lone_city 0) = Some [] \<and>
   map_option neighbors (get_node lone_city_loop 0) = Some [0, 0]"
  by (simp add: lone_city_def lone_city_loop_def build_defs)

section \<open>Runs\<close>

lemma step_cases [consumes 1, case_names return empty found dequeue close relax]:
  assumes "step e st = Some st'"
  obtains
    (return) "place st = At_return" "st' = st"
  | (empty) "place st = At_while" "open_set st = []" "st' = st\<lparr>place := At_return\<rparr>"
  | (found) q where "place st = At_while" "queue_remove (open_set st) = Some (e, q)"
      "st' = st\<lparr>open_set := q, place := At_return\<rparr>"
  | (dequeue) cur q nd where "place st = At_while" "queue_remove (open_set st) = Some (cur, q)"
      "cur \<noteq> e" "get_node (graph st) cur = Some nd"
      "st' = st\<lparr>open_set := q, place := At_neighbors cur (neighbors nd)\<rparr>"
  | (close) cur where "place st = At_neighbors cur []"
      "st' = st\<lparr>closed_set := insert cur (closed_set st), place := At_while\<rparr>"
  | (relax) cur v rest st1 where "place st = At_neighbors cur (v # rest)"
      "relax cur e v st = Some st1" "st' = st1\<lparr>place := At_neighbors cur rest\<rparr>"
proof (cases "place st")
  case At_return
  show ?thesis by (rule return) (use assms At_return in \<open>simp_all add: step_def\<close>)
next
  case At_while
  show ?thesis
  proof (cases "open_set st = []")
    case True
    show ?thesis
      by (rule empty) (use assms At_while True in \<open>simp_all add: step_def queue_is_empty_def\<close>)
  next
    case False
    with assms At_while obtain cur q where
      rm: "queue_remove (open_set st) = Some (cur, q)" and
      st': "(if cur = e then Some (st\<lparr>open_set := q, place := At_return\<rparr>)
            else do { nd \<leftarrow> get_node (graph st) cur;
                      Some (st\<lparr>open_set := q, place := At_neighbors cur (neighbors nd)\<rparr>) }) = Some st'"
      by (auto simp: step_def queue_is_empty_def bind_eq_Some_conv)
    show ?thesis
    proof (cases "cur = e")
      case True
      show ?thesis by (rule found [of q]) (use st' rm At_while True in simp_all)
    next
      case False
      with st' obtain nd where nd: "get_node (graph st) cur = Some nd"
        "st' = st\<lparr>open_set := q, place := At_neighbors cur (neighbors nd)\<rparr>"
        by (auto simp: bind_eq_Some_conv)
      show ?thesis by (rule dequeue [OF At_while rm False nd])
    qed
  qed
next
  case (At_neighbors cur ns)
  show ?thesis
  proof (cases ns)
    case Nil
    show ?thesis
      by (rule close [of cur]) (use assms At_neighbors Nil in \<open>simp_all add: step_def set_add_def\<close>)
  next
    case (Cons v rest)
    with assms At_neighbors obtain st1 where r: "relax cur e v st = Some st1"
      "st' = st1\<lparr>place := At_neighbors cur rest\<rparr>"
      by (auto simp: step_def)
    show ?thesis by (rule relax [OF _ r]) (use At_neighbors Cons in simp)
  qed
qed

lemma steps_invariant:
  assumes "P st" and "\<And>st st'. P st \<Longrightarrow> step e st = Some st' \<Longrightarrow> P st'"
    and "steps e k st = Some st'"
  shows "P st'"
  using assms(1,3)
proof (induction k arbitrary: st)
  case 0
  then show ?case by simp
next
  case (Suc k)
  from Suc.prems(2) obtain st1 where s1: "step e st = Some st1" and "steps e k st1 = Some st'"
    by (auto split: option.splits)
  with Suc.IH [of st1] assms(2) [OF Suc.prems(1) s1] show ?case by simp
qed

lemma steps_add: "steps e (j + k) st = (case steps e j st of None \<Rightarrow> None | Some st1 \<Rightarrow> steps e k st1)"
  by (induction j arbitrary: st) (auto split: option.splits)

lemma loop_at_return: "place st = At_return \<Longrightarrow> a_star_loop e st = Some st"
  by simp

lemma loop_step:
  "place st \<noteq> At_return \<Longrightarrow> step e st = Some st' \<Longrightarrow> a_star_loop e st = a_star_loop e st'"
  by (subst a_star_loop.simps) simp

lemma loop_step_any: "step e st = Some st' \<Longrightarrow> a_star_loop e st = a_star_loop e st'"
  by (cases "place st = At_return") (auto simp: step_def loop_step)

lemma steps_loop: "steps e k st = Some st' \<Longrightarrow> a_star_loop e st = a_star_loop e st'"
proof (induction k arbitrary: st)
  case 0
  then show ?case by simp
next
  case (Suc k)
  then obtain st1 where s1: "step e st = Some st1" and "steps e k st1 = Some st'"
    by (auto split: option.splits)
  with Suc.IH [of st1] loop_step_any [OF s1] show ?case by simp
qed

lemma loop_steps:
  "a_star_loop e st = Some st' \<Longrightarrow> place st' = At_return \<and> (\<exists>k. steps e k st = Some st')"
proof (induction e st rule: a_star_loop.induct)
  case (1 e st)
  show ?case
  proof (cases "place st = At_return")
    case True
    with "1.prems" have "st' = st" by simp
    with True have "steps e 0 st = Some st'" by simp
    with True \<open>st' = st\<close> show ?thesis by blast
  next
    case False
    with "1.prems" obtain st1 where s1: "step e st = Some st1" and l: "a_star_loop e st1 = Some st'"
      by (subst (asm) a_star_loop.simps) (auto split: option.splits)
    from "1.IH" [OF False s1 l] obtain k where "place st' = At_return" "steps e k st1 = Some st'"
      by blast
    with s1 have "steps e (Suc k) st = Some st'" by simp
    with \<open>place st' = At_return\<close> show ?thesis by blast
  qed
qed

lemma loop_total_aux:
  "P st \<Longrightarrow> (\<forall>st st'. P st \<longrightarrow> step e st = Some st' \<longrightarrow> P st') \<Longrightarrow>
   (\<forall>st. P st \<longrightarrow> step e st \<noteq> None) \<Longrightarrow> \<exists>st'. a_star_loop e st = Some st'"
proof (induction e st rule: a_star_loop.induct)
  case (1 e st)
  show ?case
  proof (cases "place st = At_return")
    case True
    then show ?thesis by simp
  next
    case False
    from "1.prems"(1,3) obtain st1 where s1: "step e st = Some st1" by auto
    with "1.prems" have "P st1" by blast
    from "1.IH" [OF False s1 this "1.prems"(2,3)] loop_step [OF False s1]
    show ?thesis by simp
  qed
qed

lemma loop_total:
  assumes "P st" and "\<And>st st'. P st \<Longrightarrow> step e st = Some st' \<Longrightarrow> P st'"
    and "\<And>st. P st \<Longrightarrow> step e st \<noteq> None"
  shows "\<exists>st'. a_star_loop e st = Some st'"
  using loop_total_aux [of P st e] assms by blast


section \<open>The open set has one entry per node\<close>

text \<open>Every insertion into the open set is guarded by a membership query.\<close>

lemma distinct_fst_remove1: "distinct (map fst q) \<Longrightarrow> distinct (map fst (remove1 x q))"
proof (induction q)
  case Nil
  then show ?case by simp
next
  case (Cons a q)
  have "fst ` set (remove1 x q) \<subseteq> fst ` set q"
    using set_remove1_subset [of x q] by auto
  with Cons show ?case by auto
qed

lemma distinct_queue_remove:
  "queue_remove q = Some (cur, q') \<Longrightarrow> distinct (map fst q) \<Longrightarrow> distinct (map fst q')"
  by (auto simp: queue_remove_def distinct_fst_remove1)

lemma map_fst_queue_change [simp]: "map fst (queue_change_priority q v f) = map fst q"
  by (induction q) (auto simp: queue_change_priority_def)

lemma distinct_queue_add:
  "\<not> queue_query q v \<Longrightarrow> distinct (map fst q) \<Longrightarrow> distinct (map fst (queue_add q v f))"
  by (simp add: queue_query_def queue_add_def)

lemma queue_change_entries:
  "x \<in> set (queue_change_priority q v f) \<Longrightarrow>
   (fst x = v \<and> snd x = f) \<or> (fst x \<noteq> v \<and> x \<in> set q)"
  by (auto simp: queue_change_priority_def split: if_splits)

lemma relax_open_set:
  assumes "relax cur e v st = Some st'"
  shows "(open_set st' = open_set st \<and> gcost (graph st') v = gcost (graph st) v \<and>
          fcost (graph st') v = fcost (graph st) v) \<or>
         (\<not> queue_query (open_set st) v \<and>
            (\<exists>f. fcost (graph st') v = Some f \<and> open_set st' = queue_add (open_set st) v f)) \<or>
         (queue_query (open_set st) v \<and>
            (\<exists>f. fcost (graph st') v = Some f \<and>
                 open_set st' = queue_change_priority (open_set st) v f))"
  using assms
proof (cases rule: relax_cases)
  case (skip nc nv ne)
  have "gcost (graph st') v = gcost (graph st) v" "fcost (graph st') v = fcost (graph st) v"
    by (simp_all add: gcost_def fcost_def skip(2,5))
  with skip(7) show ?thesis by simp
next
  case (update nc nv ne)
  have "fcost (graph st') v = Some (g_cost nc + euclid nc nv + euclid nv ne)"
    by (simp add: fcost_def update(6))
  then show ?thesis
    by (cases "queue_query (open_set st) v") (simp_all add: update(8))
qed

lemma relax_closed_neighbor:
  assumes "relax cur e v st = Some st'" and "v \<in> closed_set st"
  shows "open_set st' = open_set st \<and> closed_set st' = closed_set st \<and>
         gcost (graph st') v = gcost (graph st) v \<and> fcost (graph st') v = fcost (graph st) v"
  using assms(1)
proof (cases rule: relax_cases)
  case (skip nc nv ne)
  have "gcost (graph st') v = gcost (graph st) v" "fcost (graph st') v = fcost (graph st) v"
    by (simp_all add: gcost_def fcost_def skip(2,5))
  with skip(7,8) show ?thesis by simp
next
  case (update nc nv ne)
  with assms(2) show ?thesis by simp
qed

lemma step_distinct:
  assumes "step e st = Some st'" and "distinct (map fst (open_set st))"
  shows "distinct (map fst (open_set st'))"
  using assms(1)
proof (cases rule: step_cases)
  case return
  with assms(2) show ?thesis by simp
next
  case empty
  then show ?thesis by simp
next
  case (found q)
  with assms(2) distinct_queue_remove show ?thesis by auto
next
  case (dequeue cur q nd)
  with assms(2) distinct_queue_remove show ?thesis by auto
next
  case (close cur)
  with assms(2) show ?thesis by simp
next
  case (relax cur v rest st1)
  from relax_open_set [OF relax(2)] assms(2) have "distinct (map fst (open_set st1))"
    by (auto simp: distinct_queue_add)
  with relax(3) show ?thesis by simp
qed

lemma init_open_set:
  "a_star_init g s e = Some st \<Longrightarrow> \<exists>f. open_set st = [(s, f)]"
  by (auto simp: a_star_init_def bind_eq_Some_conv queue_add_def queue_create_def)

text \<open>The entry of a node carries the \<^verbatim>\<open>f_cost\<close> the node has at that moment.\<close>

definition priorities_current :: "search \<Rightarrow> bool" where
  "priorities_current st \<longleftrightarrow>
     (\<forall>x\<in>set (open_set st). fcost (graph st) (fst x) = Some (snd x))"

lemma queue_remove_subset: "queue_remove q = Some (cur, q') \<Longrightarrow> set q' \<subseteq> set q"
  using set_remove1_subset by (fastforce simp: queue_remove_def)

lemma init_priorities: "a_star_init g s e = Some st \<Longrightarrow> priorities_current st"
  by (auto simp: a_star_init_def bind_eq_Some_conv queue_add_def queue_create_def
      priorities_current_def)

lemma step_priorities:
  assumes "step e st = Some st'" and "priorities_current st"
  shows "priorities_current st'"
  using assms(1)
proof (cases rule: step_cases)
  case return
  with assms(2) show ?thesis by simp
next
  case empty
  then show ?thesis by (simp add: priorities_current_def)
next
  case (found q)
  with assms(2) queue_remove_subset [OF found(2)] show ?thesis
    by (auto simp: priorities_current_def)
next
  case (dequeue cur q nd)
  with assms(2) queue_remove_subset [OF dequeue(2)] show ?thesis
    by (auto simp: priorities_current_def)
next
  case (close cur)
  with assms(2) show ?thesis by (simp add: priorities_current_def)
next
  case (relax cur v rest st1)
  from relax(2) have "priorities_current st1"
  proof (cases rule: relax_cases)
    case (skip nc nv ne)
    have "fcost (graph st1) n = fcost (graph st) n" for n
      by (simp add: fcost_def skip(2,5))
    with assms(2) skip(7) show ?thesis by (simp add: priorities_current_def)
  next
    case (update nc nv ne)
    let ?f = "g_cost nc + euclid nc nv + euclid nv ne"
    have fv: "fcost (graph st1) n = (if n = v then Some ?f else fcost (graph st) n)" for n
      by (simp add: fcost_def update(6))
    show ?thesis
      unfolding priorities_current_def
    proof
      fix x assume x: "x \<in> set (open_set st1)"
      show "fcost (graph st1) (fst x) = Some (snd x)"
      proof (cases "queue_query (open_set st) v")
        case True
        with x update(8) queue_change_entries [of x "open_set st" v ?f]
        have "(fst x = v \<and> snd x = ?f) \<or> (fst x \<noteq> v \<and> x \<in> set (open_set st))" by simp
        with assms(2) show ?thesis by (auto simp: fv priorities_current_def)
      next
        case False
        with x update(8) have "x = (v, ?f) \<or> x \<in> set (open_set st)"
          by (auto simp: queue_add_def)
        moreover have "fst x \<noteq> v" if "x \<in> set (open_set st)"
          using that False by (auto simp: queue_query_def)
        ultimately show ?thesis using assms(2) by (auto simp: fv priorities_current_def)
      qed
    qed
  qed
  with relax(3) show ?thesis by (simp add: priorities_current_def)
qed

text \<open>
  C7.  At every point of a run of \<^verbatim>\<open>a_star\<close> no node number occurs twice in the open set,
  and the entry of a node carries the \<^verbatim>\<open>f_cost\<close> the node has at that point.  A pass through
  the body of the neighbour loop either leaves the open set and the \<^verbatim>\<open>g_cost\<close> and
  \<^verbatim>\<open>f_cost\<close> of the neighbour as they are, or adds the neighbour with its new \<^verbatim>\<open>f_cost\<close>
  after \<^verbatim>\<open>queue_query\<close> reported it absent, or changes the priority of the neighbour that
  \<^verbatim>\<open>queue_query\<close> reported present to its new \<^verbatim>\<open>f_cost\<close>.
\<close>

theorem open_set_one_entry_per_node:
  assumes "a_star_init g s e = Some st0" and "steps e k st0 = Some st"
  shows "distinct (map fst (open_set st)) \<and>
         (\<forall>x\<in>set (open_set st). fcost (graph st) (fst x) = Some (snd x)) \<and>
         (\<forall>cur v st'. relax cur e v st = Some st' \<longrightarrow>
            (open_set st' = open_set st \<and> gcost (graph st') v = gcost (graph st) v \<and>
             fcost (graph st') v = fcost (graph st) v) \<or>
            (\<not> queue_query (open_set st) v \<and>
               (\<exists>f. fcost (graph st') v = Some f \<and> open_set st' = queue_add (open_set st) v f)) \<or>
            (queue_query (open_set st) v \<and>
               (\<exists>f. fcost (graph st') v = Some f \<and>
                    open_set st' = queue_change_priority (open_set st) v f)))"
proof -
  have "distinct (map fst (open_set st0))"
    using init_open_set [OF assms(1)] by auto
  then have "distinct (map fst (open_set st))"
    using steps_invariant [where P = "\<lambda>st. distinct (map fst (open_set st))", OF _ _ assms(2)]
      step_distinct by blast
  moreover have "priorities_current st"
    using steps_invariant [where P = priorities_current, OF init_priorities [OF assms(1)] _ assms(2)]
      step_priorities by blast
  ultimately show ?thesis
    using relax_open_set unfolding priorities_current_def by blast
qed

section \<open>Closed nodes are final\<close>

definition closed_kept :: "search \<Rightarrow> search \<Rightarrow> bool" where
  "closed_kept st st' \<longleftrightarrow>
     closed_set st \<subseteq> closed_set st' \<and>
     (\<forall>n\<in>closed_set st.
        map_option g_cost (get_node (graph st') n) = map_option g_cost (get_node (graph st) n) \<and>
        map_option f_cost (get_node (graph st') n) = map_option f_cost (get_node (graph st) n) \<and>
        map_option parent (get_node (graph st') n) = map_option parent (get_node (graph st) n) \<and>
        (\<forall>p. (n, p) \<in> set (open_set st') \<longrightarrow> (n, p) \<in> set (open_set st)))"

lemma closed_kept_refl: "closed_kept st st"
  by (simp add: closed_kept_def)

lemma closed_kept_trans:
  assumes "closed_kept a b" and "closed_kept b c"
  shows "closed_kept a c"
  unfolding closed_kept_def
proof (intro conjI ballI allI impI)
  show "closed_set a \<subseteq> closed_set c"
    using assms by (auto simp: closed_kept_def)
next
  fix n assume n: "n \<in> closed_set a"
  then have nb: "n \<in> closed_set b" using assms(1) by (auto simp: closed_kept_def)
  show "map_option g_cost (get_node (graph c) n) = map_option g_cost (get_node (graph a) n)"
    using assms n nb by (simp add: closed_kept_def)
  show "map_option f_cost (get_node (graph c) n) = map_option f_cost (get_node (graph a) n)"
    using assms n nb by (simp add: closed_kept_def)
  show "map_option parent (get_node (graph c) n) = map_option parent (get_node (graph a) n)"
    using assms n nb by (simp add: closed_kept_def)
  fix p assume "(n, p) \<in> set (open_set c)"
  with assms(2) nb have "(n, p) \<in> set (open_set b)" by (simp add: closed_kept_def)
  with assms(1) n show "(n, p) \<in> set (open_set a)" by (simp add: closed_kept_def)
qed

lemma step_closed_kept:
  assumes "step e st = Some st'"
  shows "closed_kept st st'"
  using assms
proof (cases rule: step_cases)
  case return
  then show ?thesis by (simp add: closed_kept_def)
next
  case empty
  then show ?thesis by (simp add: closed_kept_def)
next
  case (found q)
  with queue_remove_subset [OF found(2)] show ?thesis by (auto simp: closed_kept_def)
next
  case (dequeue cur q nd)
  with queue_remove_subset [OF dequeue(2)] show ?thesis by (auto simp: closed_kept_def)
next
  case (close cur)
  then show ?thesis by (auto simp: closed_kept_def)
next
  case (relax cur v rest st1)
  from relax(2) have "closed_kept st st1"
  proof (cases rule: relax_cases)
    case (skip nc nv ne)
    show ?thesis
      unfolding closed_kept_def skip(5,7,8) using skip(2) by auto
  next
    case (update nc nv ne)
    have entries: "(n, p) \<in> set (open_set st)"
      if "n \<in> closed_set st" "(n, p) \<in> set (open_set st1)" for n p
    proof -
      from that(1) update(4) have "n \<noteq> v" by auto
      show ?thesis
      proof (cases "queue_query (open_set st) v")
        case True
        with that(2) update(8) queue_change_entries [of "(n, p)" "open_set st" v]
        show ?thesis using \<open>n \<noteq> v\<close> by auto
      next
        case False
        with that(2) update(8) \<open>n \<noteq> v\<close> show ?thesis by (auto simp: queue_add_def)
      qed
    qed
    have "get_node (graph st1) n = get_node (graph st) n" if "n \<in> closed_set st" for n
      using that update(4) by (auto simp: update(6))
    with entries show ?thesis
      unfolding closed_kept_def update(9) by auto
  qed
  with relax(3) show ?thesis by (simp add: closed_kept_def)
qed

text \<open>
  C6.  From any point of a run to any later point, the closed set only grows, and the
  \<^verbatim>\<open>g_cost\<close>, \<^verbatim>\<open>f_cost\<close> and \<^verbatim>\<open>parent\<close> of a node that is in the closed set stay as they are.
  A closed node is never put into the open set again and never re-prioritised: an entry
  it has in the open set at the later point was there, with that priority, at the earlier
  point, and a pass through the body of the neighbour loop for a closed neighbour leaves
  the open set, the closed set and the costs of the neighbour as they are.  (An entry a
  node got before it was closed stays in the open set until it is dequeued; that happens
  to a node that lists itself as a neighbour, see \<open>closed_entry_lingers\<close>.)
\<close>

theorem closed_nodes_final:
  assumes "steps e k st = Some st'"
  shows "closed_set st \<subseteq> closed_set st' \<and>
     (\<forall>n\<in>closed_set st.
        map_option g_cost (get_node (graph st') n) = map_option g_cost (get_node (graph st) n) \<and>
        map_option f_cost (get_node (graph st') n) = map_option f_cost (get_node (graph st) n) \<and>
        map_option parent (get_node (graph st') n) = map_option parent (get_node (graph st) n) \<and>
        (\<forall>p. (n, p) \<in> set (open_set st') \<longrightarrow> (n, p) \<in> set (open_set st))) \<and>
     (\<forall>cur v st''. relax cur e v st' = Some st'' \<longrightarrow> v \<in> closed_set st' \<longrightarrow>
        open_set st'' = open_set st' \<and> closed_set st'' = closed_set st' \<and>
        gcost (graph st'') v = gcost (graph st') v \<and> fcost (graph st'') v = fcost (graph st') v)"
proof -
  have "closed_kept st st'"
    using steps_invariant [where P = "closed_kept st", OF closed_kept_refl _ assms]
      closed_kept_trans step_closed_kept by blast
  then show ?thesis
    unfolding closed_kept_def using relax_closed_neighbor by blast
qed

text \<open>
  On \<open>loop_triangle\<close>, where node 0 lists itself, node 0 is closed after five steps and
  still has the entry it got while its own neighbours were walked; it is the entry of
  least priority, and the next step dequeues it.
\<close>

lemma closed_entry_lingers:
  "(a_star_init loop_triangle 0 2 \<bind> steps 2 5) = Some loop_triangle_closed \<and>
   closed_set loop_triangle_closed = {0} \<and> open_set loop_triangle_closed = [(0, 5), (1, 7)] \<and>
   place loop_triangle_closed = At_while \<and>
   map_option place (step 2 loop_triangle_closed) = Some (At_neighbors 0 [0, 0, 1])"
  by (simp add: loop_triangle_closed_def loop_triangle_def search_defs eval_nat_numeral
      sqrt_25 sqrt_9 sqrt_16)

lemmas run_defs = search_defs eval_nat_numeral

theorem open_set_one_entry_per_node_witness:
  "\<exists>st0 st. a_star_init unit_square 0 2 = Some st0 \<and> steps 2 3 st0 = Some st \<and>
     map fst (open_set st) = [1, 3] \<and> distinct (map fst (open_set st))"
proof -
  define st0 where "st0 = the (a_star_init unit_square 0 2)"
  define st where "st = the (steps 2 3 st0)"
  have st0: "a_star_init unit_square 0 2 = Some st0"
    by (simp add: st0_def unit_square_def run_defs)
  have st: "steps 2 3 st0 = Some st"
    by (simp add: st_def st0_def unit_square_def run_defs)
  have "map fst (open_set st) = [1, 3]"
    by (simp add: st_def st0_def unit_square_def run_defs)
  with open_set_one_entry_per_node [OF st0 st] st0 st show ?thesis
    by (intro exI [of _ st0] exI [of _ st]) simp
qed

theorem closed_nodes_final_witness:
  "\<exists>st0 st1 st2. a_star_init three_cities 0 2 = Some st0 \<and>
     steps 2 3 st0 = Some st1 \<and> steps 2 2 st1 = Some st2 \<and> closed_set st1 = {0} \<and>
     place st2 = At_neighbors 1 [2] \<and> 0 \<in> closed_set st2 \<and>
     map_option g_cost (get_node (graph st2) 0) = map_option g_cost (get_node (graph st1) 0) \<and>
     map_option f_cost (get_node (graph st2) 0) = map_option f_cost (get_node (graph st1) 0) \<and>
     map_option parent (get_node (graph st2) 0) = map_option parent (get_node (graph st1) 0)"
proof -
  define st0 where "st0 = the (a_star_init three_cities 0 2)"
  define st1 where "st1 = the (steps 2 3 st0)"
  define st2 where "st2 = the (steps 2 5 st0)"
  have st0: "a_star_init three_cities 0 2 = Some st0"
    by (simp add: st0_def three_cities_def run_defs)
  have st1: "steps 2 3 st0 = Some st1"
    by (simp add: st1_def st0_def three_cities_def run_defs)
  have "steps 2 (3 + 2) st0 = Some st2"
    by (simp add: st2_def st0_def three_cities_def run_defs)
  then have st2: "steps 2 2 st1 = Some st2"
    by (simp only: steps_add st1 option.case)
  have c1: "closed_set st1 = {0}"
    by (simp add: st1_def st0_def three_cities_def run_defs)
  have p2: "place st2 = At_neighbors 1 [2]"
    by (simp add: st2_def st0_def three_cities_def run_defs)
  have in1: "0 \<in> closed_set st1"
    by (simp only: c1 insertI1)
  from closed_nodes_final [OF st2] in1 have "0 \<in> closed_set st2 \<and>
     map_option g_cost (get_node (graph st2) 0) = map_option g_cost (get_node (graph st1) 0) \<and>
     map_option f_cost (get_node (graph st2) 0) = map_option f_cost (get_node (graph st1) 0) \<and>
     map_option parent (get_node (graph st2) 0) = map_option parent (get_node (graph st1) 0)"
    by blast
  with c1 st0 st1 st2 p2 show ?thesis
    by blast
qed

section \<open>Distances\<close>

lemma euclid_nonneg: "0 \<le> euclid a b"
  by (simp add: euclid_def)

lemma euclid_self: "euclid a a = 0"
  by (simp add: euclid_def)

lemma euclid_triangle: "euclid a c \<le> euclid a b + euclid b c"
  using real_sqrt_sum_squares_triangle_ineq
    [of "longitude a - longitude b" "longitude b - longitude c"
        "latitude a - latitude b" "latitude b - latitude c"]
  by (simp add: euclid_def)

lemma valid_iff: "valid g n \<longleftrightarrow> (\<exists>nd. get_node g n = Some nd)"
  by (simp add: valid_def)

lemma distance_euclid:
  "get_node g u = Some a \<Longrightarrow> get_node g v = Some b \<Longrightarrow> distance g u v = euclid a b"
  by (simp add: distance_def calculate_distance_def euclid_def)

lemma distance_nonneg: "0 \<le> distance g u v"
  by (auto simp: distance_def calculate_distance_def Let_def bind_eq_Some_conv split: option.splits)

lemma distance_self: "distance g u u = 0"
  by (auto simp: distance_def calculate_distance_def Let_def bind_eq_Some_conv split: option.splits)

lemma distance_triangle:
  assumes "valid g u" and "valid g v" and "valid g w"
  shows "distance g u w \<le> distance g u v + distance g v w"
proof -
  from assms obtain a b c where "get_node g u = Some a" "get_node g v = Some b" "get_node g w = Some c"
    by (auto simp: valid_iff)
  then show ?thesis
    using euclid_triangle [of a c b] by (simp add: distance_euclid)
qed

lemma edge_iff: "edge g u v \<longleftrightarrow> (\<exists>nd. get_node g u = Some nd \<and> v \<in> set (neighbors nd))"
  by (auto simp: edge_def split: option.splits)

lemma path_valid_hd: "path g p \<Longrightarrow> valid g (hd p)"
  by (induction g p rule: path.induct) (auto simp: edge_iff valid_iff)

lemma path_valid_last: "path g p \<Longrightarrow> valid g (last p)"
  by (induction g p rule: path.induct) auto

lemma path_length_nonneg: "0 \<le> path_length g p"
  by (induction g p rule: path_length.induct) (auto simp: distance_nonneg)

lemma path_triangle: "path g p \<Longrightarrow> distance g (hd p) (last p) \<le> path_length g p"
proof (induction g p rule: path.induct)
  case (1 g)
  then show ?case by simp
next
  case (2 g u)
  then show ?case by (simp add: distance_self)
next
  case (3 g u v p)
  then have "distance g v (last (v # p)) \<le> path_length g (v # p)" by simp
  moreover have "valid g u" "valid g v" "valid g (last (v # p))"
    using "3.prems" path_valid_hd [of g "v # p"] path_valid_last [of g "v # p"]
    by (auto simp: edge_iff valid_iff)
  ultimately show ?case
    using distance_triangle [of g u v "last (v # p)"] by simp
qed

lemma connects_triangle: "connects g u e p \<Longrightarrow> distance g u e \<le> path_length g p"
  using path_triangle [of g p] by (auto simp: connects_def)

lemma connects_single: "valid g u \<Longrightarrow> connects g u u [u]"
  by (simp add: connects_def)

lemma path_snoc: "path g p \<Longrightarrow> edge g (last p) v \<Longrightarrow> valid g v \<Longrightarrow> path g (p @ [v])"
  by (induction g p rule: path.induct) auto

lemma path_length_snoc:
  "p \<noteq> [] \<Longrightarrow> path_length g (p @ [v]) = path_length g p + distance g (last p) v"
  by (induction g p rule: path_length.induct) auto

lemma path_nonempty: "path g p \<Longrightarrow> p \<noteq> []"
  by auto

lemma connects_snoc:
  assumes "connects g s u p" and "edge g u v" and "valid g v"
  shows "connects g s v (p @ [v])" and "path_length g (p @ [v]) = path_length g p + distance g u v"
proof -
  have ne: "p \<noteq> []" using assms(1) by (auto simp: connects_def)
  show "connects g s v (p @ [v])"
    using assms ne path_snoc [of g p v] by (auto simp: connects_def)
  show "path_length g (p @ [v]) = path_length g p + distance g u v"
    using assms ne path_length_snoc [of p g v] by (auto simp: connects_def)
qed

section \<open>What a search leaves of the graph\<close>

definition same_shape :: "graph_t \<Rightarrow> graph_t \<Rightarrow> bool" where
  "same_shape g g' \<longleftrightarrow>
     (\<forall>n. case get_node g n of
             None \<Rightarrow> get_node g' n = None
           | Some a \<Rightarrow> (\<exists>b. get_node g' n = Some b \<and> latitude b = latitude a \<and>
                          longitude b = longitude a \<and> neighbors b = neighbors a))"

definition cost_g :: "graph_t \<Rightarrow> nat \<Rightarrow> real" where
  "cost_g g n = (case get_node g n of None \<Rightarrow> 0 | Some nd \<Rightarrow> g_cost nd)"

definition cost_f :: "graph_t \<Rightarrow> nat \<Rightarrow> real" where
  "cost_f g n = (case get_node g n of None \<Rightarrow> 0 | Some nd \<Rightarrow> f_cost nd)"

definition cost_h :: "graph_t \<Rightarrow> nat \<Rightarrow> real" where
  "cost_h g n = (case get_node g n of None \<Rightarrow> 0 | Some nd \<Rightarrow> h_cost nd)"

definition open_ids :: "search \<Rightarrow> nat set" where
  "open_ids st = {n. queue_query (open_set st) n}"

definition in_progress :: "search \<Rightarrow> nat set" where
  "in_progress st = (case place st of At_neighbors cur rest \<Rightarrow> {cur} | _ \<Rightarrow> {})"

definition seen :: "search \<Rightarrow> nat set" where
  "seen st = closed_set st \<union> open_ids st \<union> in_progress st"

lemma same_shape_refl: "same_shape g g"
  by (auto simp: same_shape_def split: option.splits)

lemma same_shape_node:
  "same_shape g g' \<Longrightarrow> get_node g n = Some a \<Longrightarrow>
   \<exists>b. get_node g' n = Some b \<and> latitude b = latitude a \<and> longitude b = longitude a \<and>
       neighbors b = neighbors a"
  unfolding same_shape_def by (erule allE [of _ n]) simp

lemma same_shape_none: "same_shape g g' \<Longrightarrow> get_node g n = None \<Longrightarrow> get_node g' n = None"
  unfolding same_shape_def by (erule allE [of _ n]) simp

lemma same_shape_valid: "same_shape g g' \<Longrightarrow> valid g' n = valid g n"
  using same_shape_node [of g g' n] same_shape_none [of g g' n]
  by (cases "get_node g n") (auto simp: valid_def)

lemma same_shape_edge: "same_shape g g' \<Longrightarrow> edge g' u v = edge g u v"
  using same_shape_node [of g g' u] same_shape_none [of g g' u]
  by (cases "get_node g u") (auto simp: edge_def)

lemma same_shape_euclid:
  assumes "same_shape g g'" and "get_node g u = Some a" and "get_node g v = Some b"
    and "get_node g' u = Some a'" and "get_node g' v = Some b'"
  shows "euclid a' b' = euclid a b"
  using same_shape_node [OF assms(1,2)] same_shape_node [OF assms(1,3)] assms(4,5)
  by (auto simp: euclid_def)

lemma same_shape_distance:
  assumes "same_shape g g'"
  shows "distance g' u v = distance g u v"
proof (cases "get_node g u")
  case None
  with same_shape_none [OF assms] show ?thesis
    by (simp add: distance_def calculate_distance_def)
next
  case a: (Some a)
  show ?thesis
  proof (cases "get_node g v")
    case None
    with same_shape_none [OF assms] show ?thesis
      by (simp add: distance_def calculate_distance_def split: option.splits Option.bind_splits)
  next
    case b: (Some b)
    from same_shape_node [OF assms a] same_shape_node [OF assms b]
    obtain a' b' where "get_node g' u = Some a'" "get_node g' v = Some b'" by blast
    with same_shape_euclid [OF assms a b this] a b show ?thesis
      by (simp add: distance_euclid)
  qed
qed

lemma same_shape_update:
  assumes "same_shape g0 g" and "get_node g v = Some nv"
    and "get_node g' = (get_node g)(v \<mapsto> nv')"
    and "latitude nv' = latitude nv" "longitude nv' = longitude nv" "neighbors nv' = neighbors nv"
  shows "same_shape g0 g'"
  unfolding same_shape_def
proof
  fix n
  show "case get_node g0 n of None \<Rightarrow> get_node g' n = None
        | Some a \<Rightarrow> \<exists>b. get_node g' n = Some b \<and> latitude b = latitude a \<and>
                        longitude b = longitude a \<and> neighbors b = neighbors a"
  proof (cases "get_node g0 n")
    case None
    with same_shape_none [OF assms(1)] assms(2,3) show ?thesis by auto
  next
    case (Some a)
    with same_shape_node [OF assms(1) Some] assms(2-) show ?thesis by auto
  qed
qed


lemma cost_simps:
  "get_node g n = Some nd \<Longrightarrow> cost_g g n = g_cost nd"
  "get_node g n = Some nd \<Longrightarrow> cost_f g n = f_cost nd"
  "get_node g n = Some nd \<Longrightarrow> cost_h g n = h_cost nd"
  by (simp_all add: cost_g_def cost_f_def cost_h_def)

lemma cost_cong:
  "get_node g' n = get_node g n \<Longrightarrow> cost_g g' n = cost_g g n"
  "get_node g' n = get_node g n \<Longrightarrow> cost_f g' n = cost_f g n"
  "get_node g' n = get_node g n \<Longrightarrow> cost_h g' n = cost_h g n"
  by (simp_all add: cost_g_def cost_f_def cost_h_def)

lemma relax_obs [consumes 2, case_names skip update]:
  assumes "relax cur e v st = Some st'" and "same_shape g0 (graph st)"
  obtains
    (skip)
      "valid g0 cur" "valid g0 v" "valid g0 e"
      "v \<in> closed_set st \<or>
       (v \<in> open_ids st \<and> cost_g (graph st) v \<le> cost_g (graph st) cur + distance g0 cur v)"
      "open_set st' = open_set st" "closed_set st' = closed_set st" "place st' = place st"
      "same_shape g0 (graph st')"
      "\<And>n. cost_g (graph st') n = cost_g (graph st) n"
      "\<And>n. cost_f (graph st') n = cost_f (graph st) n"
      "\<And>n. cost_h (graph st') n = (if n = v then distance g0 v e else cost_h (graph st) n)"
      "\<And>n. n \<noteq> v \<Longrightarrow> get_node (graph st') n = get_node (graph st) n"
  | (update)
      "valid g0 cur" "valid g0 v" "valid g0 e"
      "v \<notin> closed_set st"
      "v \<in> open_ids st \<Longrightarrow> cost_g (graph st) cur + distance g0 cur v < cost_g (graph st) v"
      "open_set st' =
         (if v \<in> open_ids st
          then queue_change_priority (open_set st) v
                 (cost_g (graph st) cur + distance g0 cur v + distance g0 v e)
          else queue_add (open_set st) v
                 (cost_g (graph st) cur + distance g0 cur v + distance g0 v e))"
      "closed_set st' = closed_set st" "place st' = place st"
      "same_shape g0 (graph st')"
      "\<And>n. cost_g (graph st') n =
            (if n = v then cost_g (graph st) cur + distance g0 cur v else cost_g (graph st) n)"
      "\<And>n. cost_f (graph st') n =
            (if n = v then cost_g (graph st) cur + distance g0 cur v + distance g0 v e
             else cost_f (graph st) n)"
      "\<And>n. cost_h (graph st') n = (if n = v then distance g0 v e else cost_h (graph st) n)"
      "\<And>n. n \<noteq> v \<Longrightarrow> get_node (graph st') n = get_node (graph st) n"
  using assms(1)
proof (cases rule: relax_cases)
  case sk: (skip nc nv ne)
  note sh = assms(2)
  have val: "valid g0 cur" "valid g0 v" "valid g0 e"
    using sk(1-3) same_shape_valid [OF sh] by (auto simp: valid_iff)
  have d1: "euclid nc nv = distance g0 cur v"
    using sk(1,2) same_shape_distance [OF sh, of cur v] by (simp add: distance_euclid)
  have d2: "euclid nv ne = distance g0 v e"
    using sk(2,3) same_shape_distance [OF sh, of v e] by (simp add: distance_euclid)
  have c: "v \<in> closed_set st \<or>
       (v \<in> open_ids st \<and> cost_g (graph st) v \<le> cost_g (graph st) cur + distance g0 cur v)"
    using sk(4) sk(1,2) d1 by (auto simp: open_ids_def cost_simps)
  have sh': "same_shape g0 (graph st')"
    by (rule same_shape_update [OF sh sk(2) sk(5)]) simp_all
  have g: "cost_g (graph st') n = cost_g (graph st) n" for n
    using sk(2) by (simp add: cost_g_def sk(5))
  have f: "cost_f (graph st') n = cost_f (graph st) n" for n
    using sk(2) by (simp add: cost_f_def sk(5))
  have h: "cost_h (graph st') n = (if n = v then distance g0 v e else cost_h (graph st) n)" for n
    using sk(2) d2 by (simp add: cost_h_def sk(5))
  have o: "n \<noteq> v \<Longrightarrow> get_node (graph st') n = get_node (graph st) n" for n
    by (simp add: sk(5))
  show ?thesis
    by (rule skip [OF val c sk(7) sk(8) sk(9) sh' g f h o])
next
  case up: (update nc nv ne)
  note sh = assms(2)
  have val: "valid g0 cur" "valid g0 v" "valid g0 e"
    using up(1-3) same_shape_valid [OF sh] by (auto simp: valid_iff)
  have d1: "euclid nc nv = distance g0 cur v"
    using up(1,2) same_shape_distance [OF sh, of cur v] by (simp add: distance_euclid)
  have d2: "euclid nv ne = distance g0 v e"
    using up(2,3) same_shape_distance [OF sh, of v e] by (simp add: distance_euclid)
  have gc: "g_cost nc = cost_g (graph st) cur"
    using up(1) by (simp add: cost_simps)
  have lt: "v \<in> open_ids st \<Longrightarrow> cost_g (graph st) cur + distance g0 cur v < cost_g (graph st) v"
    using up(5) up(2) d1 gc by (simp add: open_ids_def cost_simps)
  have op: "open_set st' =
         (if v \<in> open_ids st
          then queue_change_priority (open_set st) v
                 (cost_g (graph st) cur + distance g0 cur v + distance g0 v e)
          else queue_add (open_set st) v
                 (cost_g (graph st) cur + distance g0 cur v + distance g0 v e))"
    using up(8) d1 d2 gc by (simp add: open_ids_def)
  have sh': "same_shape g0 (graph st')"
    by (rule same_shape_update [OF sh up(2) up(6)]) simp_all
  have g: "cost_g (graph st') n =
            (if n = v then cost_g (graph st) cur + distance g0 cur v else cost_g (graph st) n)" for n
    using d1 gc by (simp add: cost_g_def up(6))
  have f: "cost_f (graph st') n =
            (if n = v then cost_g (graph st) cur + distance g0 cur v + distance g0 v e
             else cost_f (graph st) n)" for n
    using d1 d2 gc by (simp add: cost_f_def up(6))
  have h: "cost_h (graph st') n = (if n = v then distance g0 v e else cost_h (graph st) n)" for n
    using d2 by (simp add: cost_h_def up(6))
  have o: "n \<noteq> v \<Longrightarrow> get_node (graph st') n = get_node (graph st) n" for n
    by (simp add: up(6))
  show ?thesis
    by (rule update [OF val up(4) lt op up(9) up(10) sh' g f h o])
qed

lemma relax_succeeds:
  assumes "get_node (graph st) cur \<noteq> None" and "get_node (graph st) v \<noteq> None"
    and "get_node (graph st) e \<noteq> None"
  shows "relax cur e v st \<noteq> None"
proof -
  from assms obtain nc nv ne where n: "get_node (graph st) cur = Some nc"
    "get_node (graph st) v = Some nv" "get_node (graph st) e = Some ne"
    by auto
  obtain g1 where g1: "set_h_cost (graph st) v e = Some g1"
    using n by (auto simp: set_h_cost_def calculate_distance_def upd_node_def)
  from set_h_cost_effect [OF g1] n have v1: "get_node g1 v \<noteq> None" "get_node g1 cur \<noteq> None"
    by auto
  then obtain pg where pg: "calculate_g_cost g1 cur v = Some pg"
    by (auto simp: calculate_g_cost_def calculate_distance_def)
  from v1 obtain gn where gn: "gcost g1 v = Some gn"
    by (auto simp: gcost_def)
  have u: "update_neighbor cur v pg (st\<lparr>graph := g1\<rparr>) \<noteq> None"
  proof (cases "v \<in> closed_set st")
    case True
    then show ?thesis by (simp add: update_neighbor_def set_query_def)
  next
    case False
    from v1 obtain g2 where g2: "upd_node g1 v (\<lambda>nd. nd\<lparr>g_cost := pg\<rparr>) = Some g2"
      by (auto simp: upd_node_def)
    with upd_node_effect [OF g2] obtain g3 where g3: "set_f_cost g2 v = Some g3"
      by (auto simp: set_f_cost_def upd_node_def)
    with set_f_cost_effect [OF g3] obtain g4 where
      g4: "upd_node g3 v (\<lambda>nd. nd\<lparr>parent := Some cur\<rparr>) = Some g4"
      by (auto simp: upd_node_def)
    with upd_node_effect [OF g4] obtain f where "fcost g4 v = Some f"
      by (auto simp: fcost_def)
    with False g2 g3 g4 show ?thesis
      by (simp add: update_neighbor_def set_query_def)
  qed
  show ?thesis
    using g1 pg gn u by (simp add: relax_def)
qed


section \<open>The invariant of the search\<close>

definition inv_shape :: "graph_t \<Rightarrow> nat \<Rightarrow> search \<Rightarrow> bool" where
  "inv_shape g0 e st \<longleftrightarrow>
     same_shape g0 (graph st) \<and> valid g0 e \<and> e \<notin> closed_set st \<and> e \<notin> in_progress st \<and>
     (\<forall>n\<in>seen st. valid g0 n) \<and>
     (\<forall>n. n \<notin> seen st \<longrightarrow> get_node (graph st) n = get_node g0 n) \<and>
     (\<forall>cur rest. place st = At_neighbors cur rest \<longrightarrow> (\<forall>v\<in>set rest. edge g0 cur v))"

definition inv_queue :: "search \<Rightarrow> bool" where
  "inv_queue st \<longleftrightarrow>
     distinct (map fst (open_set st)) \<and>
     (\<forall>x\<in>set (open_set st). snd x = cost_f (graph st) (fst x))"

definition inv_heur :: "graph_t \<Rightarrow> nat \<Rightarrow> search \<Rightarrow> bool" where
  "inv_heur g0 e st \<longleftrightarrow>
     (\<forall>n\<in>seen st. cost_h (graph st) n = distance g0 n e \<and>
                   cost_f (graph st) n = cost_g (graph st) n + distance g0 n e)"

definition inv_real :: "graph_t \<Rightarrow> nat \<Rightarrow> search \<Rightarrow> bool" where
  "inv_real g0 s st \<longleftrightarrow>
     s \<in> seen st \<and> cost_g (graph st) s = 0 \<and>
     (\<forall>n\<in>seen st. \<exists>p. connects g0 s n p \<and> path_length g0 p = cost_g (graph st) n)"

definition inv_edge :: "graph_t \<Rightarrow> search \<Rightarrow> bool" where
  "inv_edge g0 st \<longleftrightarrow>
     (\<forall>u\<in>closed_set st. \<forall>v. edge g0 u v \<longrightarrow>
        v \<in> seen st \<and> cost_g (graph st) v \<le> cost_g (graph st) u + distance g0 u v) \<and>
     (\<forall>cur rest. place st = At_neighbors cur rest \<longrightarrow>
        (\<forall>v. edge g0 cur v \<longrightarrow>
           v \<in> set rest \<or>
           (v \<in> seen st \<and> cost_g (graph st) v \<le> cost_g (graph st) cur + distance g0 cur v)))"

definition inv_mono :: "search \<Rightarrow> bool" where
  "inv_mono st \<longleftrightarrow>
     (\<forall>c\<in>closed_set st. \<forall>n\<in>open_ids st \<union> in_progress st.
        cost_f (graph st) c \<le> cost_f (graph st) n) \<and>
     (\<forall>c\<in>in_progress st. \<forall>n\<in>open_ids st. cost_f (graph st) c \<le> cost_f (graph st) n)"

definition running :: "graph_t \<Rightarrow> nat \<Rightarrow> nat \<Rightarrow> search \<Rightarrow> bool" where
  "running g0 s e st \<longleftrightarrow>
     place st \<noteq> At_return \<and> inv_shape g0 e st \<and> inv_queue st \<and> inv_heur g0 e st \<and>
     inv_real g0 s st \<and> inv_edge g0 st \<and> inv_mono st"

definition finished :: "graph_t \<Rightarrow> nat \<Rightarrow> nat \<Rightarrow> search \<Rightarrow> bool" where
  "finished g0 s e st \<longleftrightarrow>
     place st = At_return \<and>
     ((\<not> reachable g0 s e \<and> closed_set st = {n. reachable g0 s n} \<and>
       get_node (graph st) e = get_node g0 e) \<or>
      (\<exists>nd. get_node (graph st) e = Some nd \<and> shortest g0 s e (g_cost nd) \<and>
            f_cost nd = g_cost nd \<and> h_cost nd = 0))"

lemma queue_remove_distinct:
  assumes "queue_remove q = Some (cur, q')" and "distinct (map fst q)"
  shows "set q' \<subseteq> set q" and "fst ` set q' = fst ` set q - {cur}"
    and "\<exists>p. (cur, p) \<in> set q \<and> (\<forall>x\<in>set q. p \<le> snd x)"
proof -
  from queue_remove_Some [OF assms(1)] obtain p where
    p: "(cur, p) \<in> set q" and q': "q' = remove1 (cur, p) q" and m: "\<forall>x\<in>set q. p \<le> snd x"
    by blast
  have dq: "distinct q" using assms(2) by (simp add: distinct_map)
  then have sq: "set q' = set q - {(cur, p)}" using q' by simp
  show "set q' \<subseteq> set q" using sq by auto
  show "\<exists>p. (cur, p) \<in> set q \<and> (\<forall>x\<in>set q. p \<le> snd x)" using p m by blast
  have uniq: "x \<in> set q \<Longrightarrow> fst x = cur \<Longrightarrow> x = (cur, p)" for x
    using eq_key_imp_eq_value [OF assms(2) p, of "snd x"] by (cases x) auto
  show "fst ` set q' = fst ` set q - {cur}"
  proof (intro set_eqI iffI)
    fix n assume "n \<in> fst ` set q'"
    then obtain x where x: "x \<in> set q'" "fst x = n" by auto
    with sq have "x \<in> set q" "x \<noteq> (cur, p)" by auto
    with uniq [of x] x show "n \<in> fst ` set q - {cur}" by auto
  next
    fix n assume "n \<in> fst ` set q - {cur}"
    then obtain x where x: "x \<in> set q" "fst x = n" "n \<noteq> cur" by auto
    then have "x \<noteq> (cur, p)" by auto
    with x sq have "x \<in> set q'" by simp
    with x show "n \<in> fst ` set q'" by auto
  qed
qed

lemma open_ids_eq: "open_ids st = fst ` set (open_set st)"
  by (auto simp: open_ids_def queue_query_def)

lemma seen_simps:
  "place st = At_while \<Longrightarrow> seen st = closed_set st \<union> open_ids st"
  "place st = At_neighbors cur rest \<Longrightarrow> seen st = insert cur (closed_set st \<union> open_ids st)"
  by (auto simp: seen_def in_progress_def)

lemma in_progress_simps:
  "place st = At_while \<Longrightarrow> in_progress st = {}"
  "place st = At_return \<Longrightarrow> in_progress st = {}"
  "place st = At_neighbors cur rest \<Longrightarrow> in_progress st = {cur}"
  by (auto simp: in_progress_def)

lemma running_dequeue:
  assumes run: "running g0 s e st" and pl: "place st = At_while"
    and rm: "queue_remove (open_set st) = Some (cur, q)" and ne: "cur \<noteq> e"
    and nd: "get_node (graph st) cur = Some nd"
    and st': "st' = st\<lparr>open_set := q, place := At_neighbors cur (neighbors nd)\<rparr>"
  shows "running g0 s e st'"
proof -
  from run have sh: "inv_shape g0 e st" and qu: "inv_queue st" and he: "inv_heur g0 e st"
    and re: "inv_real g0 s st" and ed: "inv_edge g0 st" and mo: "inv_mono st"
    by (simp_all add: running_def)
  from qu have dist: "distinct (map fst (open_set st))" by (simp add: inv_queue_def)
  note rd = queue_remove_distinct [OF rm dist]
  have ids: "open_ids st' = open_ids st - {cur}"
    using rd(2) by (simp add: open_ids_eq st')
  have cur_open: "cur \<in> open_ids st"
    using rd(3) by (force simp: open_ids_eq)
  have ip: "in_progress st' = {cur}" "in_progress st = {}"
    using pl by (simp_all add: in_progress_def st')
  have cl: "closed_set st' = closed_set st" and gr: "graph st' = graph st"
    by (simp_all add: st')
  have sn: "seen st' = seen st"
    using ids cur_open ip cl by (auto simp: seen_def)
  have min: "cost_f (graph st) cur \<le> cost_f (graph st) n" if "n \<in> open_ids st" for n
  proof -
    from rd(3) obtain p where p: "(cur, p) \<in> set (open_set st)" "\<forall>x\<in>set (open_set st). p \<le> snd x"
      by blast
    from that obtain x where x: "x \<in> set (open_set st)" "fst x = n"
      by (auto simp: open_ids_eq)
    from qu p(1) x(1) have "p = cost_f (graph st) cur" "snd x = cost_f (graph st) (fst x)"
      by (auto simp: inv_queue_def)
    with p(2) x show ?thesis by auto
  qed
  have nbrs: "edge g0 cur v \<longleftrightarrow> v \<in> set (neighbors nd)" for v
    using sh nd same_shape_edge [of g0 "graph st" cur v]
    by (simp add: inv_shape_def edge_def)
  have "inv_shape g0 e st'"
    using sh ne nbrs unfolding inv_shape_def sn gr cl ip by (simp add: st')
  moreover have "inv_queue st'"
    using qu rd(1) distinct_queue_remove [OF rm dist] unfolding inv_queue_def gr
    by (auto simp: st')
  moreover have "inv_heur g0 e st'"
    using he unfolding inv_heur_def sn gr .
  moreover have "inv_real g0 s st'"
    using re unfolding inv_real_def sn gr .
  moreover have "inv_edge g0 st'"
    using ed nbrs unfolding inv_edge_def sn gr cl by (simp add: st')
  moreover have "inv_mono st'"
    using mo min cur_open unfolding inv_mono_def gr cl ip ids by auto
  ultimately show ?thesis by (simp add: running_def st')
qed

lemma running_close:
  assumes run: "running g0 s e st" and pl: "place st = At_neighbors cur []"
    and st': "st' = st\<lparr>closed_set := insert cur (closed_set st), place := At_while\<rparr>"
  shows "running g0 s e st'"
proof -
  from run have sh: "inv_shape g0 e st" and qu: "inv_queue st" and he: "inv_heur g0 e st"
    and re: "inv_real g0 s st" and ed: "inv_edge g0 st" and mo: "inv_mono st"
    by (simp_all add: running_def)
  have ids: "open_ids st' = open_ids st"
    by (simp add: open_ids_def st')
  have ip: "in_progress st' = {}" "in_progress st = {cur}"
    using pl by (simp_all add: in_progress_def st')
  have cl: "closed_set st' = insert cur (closed_set st)" and gr: "graph st' = graph st"
    and op: "open_set st' = open_set st"
    by (simp_all add: st')
  have sn: "seen st' = seen st"
    using ids ip cl by (auto simp: seen_def)
  have "inv_shape g0 e st'"
    using sh unfolding inv_shape_def sn gr cl ip by (auto simp: st')
  moreover have "inv_queue st'"
    using qu unfolding inv_queue_def gr op .
  moreover have "inv_heur g0 e st'"
    using he unfolding inv_heur_def sn gr .
  moreover have "inv_real g0 s st'"
    using re unfolding inv_real_def sn gr .
  moreover have "inv_edge g0 st'"
    using ed pl unfolding inv_edge_def sn gr cl by (auto simp: st')
  moreover have "inv_mono st'"
    using mo unfolding inv_mono_def gr cl ip ids by auto
  ultimately show ?thesis by (simp add: running_def st')
qed


lemma running_skip:
  assumes run: "running g0 s e st" and pl: "place st = At_neighbors cur (v # rest)"
    and val: "valid g0 cur" "valid g0 v" "valid g0 e"
    and c: "v \<in> closed_set st \<or>
       (v \<in> open_ids st \<and> cost_g (graph st) v \<le> cost_g (graph st) cur + distance g0 cur v)"
    and op: "open_set st' = open_set st" and cl: "closed_set st' = closed_set st"
    and pl': "place st' = At_neighbors cur rest"
    and sh': "same_shape g0 (graph st')"
    and g: "\<And>n. cost_g (graph st') n = cost_g (graph st) n"
    and f: "\<And>n. cost_f (graph st') n = cost_f (graph st) n"
    and h: "\<And>n. cost_h (graph st') n = (if n = v then distance g0 v e else cost_h (graph st) n)"
    and o: "\<And>n. n \<noteq> v \<Longrightarrow> get_node (graph st') n = get_node (graph st) n"
  shows "running g0 s e st'"
proof -
  from run have sh: "inv_shape g0 e st" and qu: "inv_queue st" and he: "inv_heur g0 e st"
    and re: "inv_real g0 s st" and ed: "inv_edge g0 st" and mo: "inv_mono st"
    by (simp_all add: running_def)
  have ids: "open_ids st' = open_ids st"
    by (simp add: open_ids_def op)
  have ip: "in_progress st' = {cur}" "in_progress st = {cur}"
    using pl pl' by (simp_all add: in_progress_def)
  have sn: "seen st' = seen st"
    using ids ip cl by (simp add: seen_def)
  have vseen: "v \<in> seen st"
    using c by (auto simp: seen_def)
  have curseen: "cur \<in> seen st"
    using ip by (simp add: seen_def)
  have "inv_shape g0 e st'"
    unfolding inv_shape_def
  proof (intro conjI allI impI ballI)
    show "same_shape g0 (graph st')" by (rule sh')
    show "valid g0 e" by (rule val)
    show "e \<notin> closed_set st'" using sh cl by (simp add: inv_shape_def)
    show "e \<notin> in_progress st'" using sh ip by (simp add: inv_shape_def)
    show "valid g0 n" if "n \<in> seen st'" for n
      using that sh sn by (simp add: inv_shape_def)
    show "get_node (graph st') n = get_node g0 n" if "n \<notin> seen st'" for n
    proof -
      from that sn vseen have "n \<noteq> v" "n \<notin> seen st" by auto
      with o [of n] sh show ?thesis by (simp add: inv_shape_def)
    qed
    show "edge g0 c w" if "place st' = At_neighbors c r" "w \<in> set r" for c r w
      using that pl pl' sh by (simp add: inv_shape_def)
  qed
  moreover have "inv_queue st'"
    using qu unfolding inv_queue_def op f .
  moreover have "inv_heur g0 e st'"
    using he unfolding inv_heur_def sn f g h by auto
  moreover have "inv_real g0 s st'"
    using re unfolding inv_real_def sn g .
  moreover have "inv_edge g0 st'"
    unfolding inv_edge_def
  proof (intro conjI allI impI ballI)
    fix u w assume "u \<in> closed_set st'" "edge g0 u w"
    with ed cl show "w \<in> seen st'" "cost_g (graph st') w \<le> cost_g (graph st') u + distance g0 u w"
      unfolding inv_edge_def sn g by auto
  next
    fix c r w assume a: "place st' = At_neighbors c r" "edge g0 c w"
    with pl' have [simp]: "c = cur" "r = rest" by simp_all
    from ed pl a(2) have "w \<in> set (v # rest) \<or>
        (w \<in> seen st \<and> cost_g (graph st) w \<le> cost_g (graph st) cur + distance g0 cur w)"
      by (simp add: inv_edge_def)
    moreover have "cost_g (graph st) v \<le> cost_g (graph st) cur + distance g0 cur v"
    proof (cases "v \<in> closed_set st")
      case False
      with c show ?thesis by simp
    next
      case True
      with mo ip have "cost_f (graph st) v \<le> cost_f (graph st) cur"
        by (simp add: inv_mono_def)
      moreover from he vseen curseen have
        "cost_f (graph st) v = cost_g (graph st) v + distance g0 v e"
        "cost_f (graph st) cur = cost_g (graph st) cur + distance g0 cur e"
        by (simp_all add: inv_heur_def)
      moreover have "distance g0 cur e \<le> distance g0 cur v + distance g0 v e"
        using val by (rule distance_triangle)
      ultimately show ?thesis by simp
    qed
    ultimately show "w \<in> set r \<or>
        (w \<in> seen st' \<and> cost_g (graph st') w \<le> cost_g (graph st') c + distance g0 c w)"
      using vseen unfolding sn g by auto
  qed
  moreover have "inv_mono st'"
    using mo unfolding inv_mono_def cl ip ids f .
  ultimately show ?thesis by (simp add: running_def pl')
qed


lemma running_update:
  assumes run: "running g0 s e st" and pl: "place st = At_neighbors cur (v # rest)"
    and val: "valid g0 cur" "valid g0 v" "valid g0 e"
    and nc: "v \<notin> closed_set st"
    and lt: "v \<in> open_ids st \<Longrightarrow> cost_g (graph st) cur + distance g0 cur v < cost_g (graph st) v"
    and op: "open_set st' =
         (if v \<in> open_ids st
          then queue_change_priority (open_set st) v
                 (cost_g (graph st) cur + distance g0 cur v + distance g0 v e)
          else queue_add (open_set st) v
                 (cost_g (graph st) cur + distance g0 cur v + distance g0 v e))"
    and cl: "closed_set st' = closed_set st"
    and pl': "place st' = At_neighbors cur rest"
    and sh': "same_shape g0 (graph st')"
    and g: "\<And>n. cost_g (graph st') n =
            (if n = v then cost_g (graph st) cur + distance g0 cur v else cost_g (graph st) n)"
    and f: "\<And>n. cost_f (graph st') n =
            (if n = v then cost_g (graph st) cur + distance g0 cur v + distance g0 v e
             else cost_f (graph st) n)"
    and h: "\<And>n. cost_h (graph st') n = (if n = v then distance g0 v e else cost_h (graph st) n)"
    and o: "\<And>n. n \<noteq> v \<Longrightarrow> get_node (graph st') n = get_node (graph st) n"
  shows "running g0 s e st'"
proof -
  from run have sh: "inv_shape g0 e st" and qu: "inv_queue st" and he: "inv_heur g0 e st"
    and re: "inv_real g0 s st" and ed: "inv_edge g0 st" and mo: "inv_mono st"
    by (simp_all add: running_def)
  let ?pg = "cost_g (graph st) cur + distance g0 cur v"
  have ids: "open_ids st' = insert v (open_ids st)"
    by (auto simp: open_ids_def op)
  have ip: "in_progress st' = {cur}" "in_progress st = {cur}"
    using pl pl' by (simp_all add: in_progress_def)
  have sn: "seen st' = insert v (seen st)"
    using ids ip cl by (auto simp: seen_def)
  have curseen: "cur \<in> seen st"
    using ip by (simp add: seen_def)
  have edge_v: "edge g0 cur v"
    using sh pl by (simp add: inv_shape_def)
  obtain pc where pc: "connects g0 s cur pc" "path_length g0 pc = cost_g (graph st) cur"
    using re curseen by (auto simp: inv_real_def)
  have gcur_nonneg: "0 \<le> cost_g (graph st) cur"
    using pc(2) path_length_nonneg [of g0 pc] by simp
  have self: "?pg = cost_g (graph st) cur" if "v = cur"
    using that by (simp add: distance_self)
  have old: "?pg \<le> cost_g (graph st) v" if "v \<in> seen st"
  proof (cases "v \<in> open_ids st")
    case True
    with lt show ?thesis by simp
  next
    case False
    with that nc ip have "v = cur" by (auto simp: seen_def)
    with self show ?thesis by simp
  qed
  have gcur': "cost_g (graph st') cur = cost_g (graph st) cur"
    by (simp add: g distance_self)
  have fcur: "cost_f (graph st) cur = cost_g (graph st) cur + distance g0 cur e"
    using he curseen by (simp add: inv_heur_def)
  have fcur': "cost_f (graph st') cur = cost_f (graph st) cur"
    using fcur by (simp add: f distance_self)
  have fv_ge: "cost_f (graph st) cur \<le> ?pg + distance g0 v e"
    using fcur distance_triangle [OF val] by simp
  have "inv_shape g0 e st'"
    unfolding inv_shape_def
  proof (intro conjI allI impI ballI)
    show "same_shape g0 (graph st')" by (rule sh')
    show "valid g0 e" by (rule val)
    show "e \<notin> closed_set st'" using sh cl by (simp add: inv_shape_def)
    show "e \<notin> in_progress st'" using sh ip by (simp add: inv_shape_def)
    show "valid g0 n" if "n \<in> seen st'" for n
      using that sh sn val(2) by (auto simp: inv_shape_def)
    show "get_node (graph st') n = get_node g0 n" if "n \<notin> seen st'" for n
    proof -
      from that sn have "n \<noteq> v" "n \<notin> seen st" by auto
      with o [of n] sh show ?thesis by (simp add: inv_shape_def)
    qed
    show "edge g0 c w" if "place st' = At_neighbors c r" "w \<in> set r" for c r w
      using that pl pl' sh by (simp add: inv_shape_def)
  qed
  moreover have "inv_queue st'"
    unfolding inv_queue_def
  proof (intro conjI ballI)
    from qu have d: "distinct (map fst (open_set st))" by (simp add: inv_queue_def)
    show "distinct (map fst (open_set st'))"
    proof (cases "v \<in> open_ids st")
      case True
      with d show ?thesis by (simp add: op)
    next
      case False
      with d show ?thesis by (simp add: op open_ids_def distinct_queue_add)
    qed
    fix x assume x: "x \<in> set (open_set st')"
    show "snd x = cost_f (graph st') (fst x)"
    proof (cases "v \<in> open_ids st")
      case True
      with x op queue_change_entries [of x "open_set st" v]
      have "(fst x = v \<and> snd x = ?pg + distance g0 v e) \<or> (fst x \<noteq> v \<and> x \<in> set (open_set st))"
        by simp
      with qu show ?thesis by (auto simp: f inv_queue_def)
    next
      case False
      with x op have "x = (v, ?pg + distance g0 v e) \<or> x \<in> set (open_set st)"
        by (auto simp: queue_add_def)
      moreover have "fst x \<noteq> v" if "x \<in> set (open_set st)"
        using that False by (auto simp: open_ids_eq)
      ultimately show ?thesis using qu by (auto simp: f inv_queue_def)
    qed
  qed
  moreover have "inv_heur g0 e st'"
    using he unfolding inv_heur_def sn by (auto simp: f g h)
  moreover have "inv_real g0 s st'"
    unfolding inv_real_def
  proof (intro conjI ballI)
    from re have sseen: "s \<in> seen st" and gs: "cost_g (graph st) s = 0"
      by (simp_all add: inv_real_def)
    show "s \<in> seen st'" using sseen sn by simp
    show "cost_g (graph st') s = 0"
    proof (cases "s = v")
      case False
      with gs show ?thesis by (simp add: g)
    next
      case True
      with old sseen gs have "?pg \<le> 0" by simp
      moreover have "0 \<le> ?pg" using gcur_nonneg distance_nonneg [of g0 cur v] by simp
      ultimately show ?thesis using True by (simp add: g)
    qed
    fix n assume n: "n \<in> seen st'"
    show "\<exists>p. connects g0 s n p \<and> path_length g0 p = cost_g (graph st') n"
    proof (cases "n = v")
      case True
      from connects_snoc [OF pc(1) edge_v val(2)] pc(2) True show ?thesis
        by (auto simp: g)
    next
      case False
      with n sn re show ?thesis by (auto simp: g inv_real_def)
    qed
  qed
  moreover have "inv_edge g0 st'"
    unfolding inv_edge_def
  proof (intro conjI allI impI ballI)
    fix u w assume a: "u \<in> closed_set st'" "edge g0 u w"
    with ed cl have w: "w \<in> seen st" "cost_g (graph st) w \<le> cost_g (graph st) u + distance g0 u w"
      by (auto simp: inv_edge_def)
    from a cl nc have "u \<noteq> v" by auto
    then have gu: "cost_g (graph st') u = cost_g (graph st) u" by (simp add: g)
    show "w \<in> seen st'" using w sn by simp
    show "cost_g (graph st') w \<le> cost_g (graph st') u + distance g0 u w"
    proof (cases "w = v")
      case True
      with old w have "?pg \<le> cost_g (graph st) u + distance g0 u w" by simp
      with True gu show ?thesis by (simp add: g)
    next
      case False
      with w gu show ?thesis by (simp add: g)
    qed
  next
    fix c r w assume a: "place st' = At_neighbors c r" "edge g0 c w"
    with pl' have [simp]: "c = cur" "r = rest" by simp_all
    from ed pl a(2) have disj: "w \<in> set (v # rest) \<or>
        (w \<in> seen st \<and> cost_g (graph st) w \<le> cost_g (graph st) cur + distance g0 cur w)"
      by (simp add: inv_edge_def)
    show "w \<in> set r \<or>
        (w \<in> seen st' \<and> cost_g (graph st') w \<le> cost_g (graph st') c + distance g0 c w)"
    proof (cases "w = v")
      case True
      then show ?thesis using sn gcur' by (simp add: g)
    next
      case False
      with disj show ?thesis using sn gcur' by (auto simp: g)
    qed
  qed
  moreover have "inv_mono st'"
    unfolding inv_mono_def
  proof (intro conjI ballI)
    fix c n assume a: "c \<in> closed_set st'" "n \<in> open_ids st' \<union> in_progress st'"
    from a cl nc have "c \<noteq> v" by auto
    then have fc: "cost_f (graph st') c = cost_f (graph st) c" by (simp add: f)
    from mo a(1) cl ip have ccur: "cost_f (graph st) c \<le> cost_f (graph st) cur"
      by (simp add: inv_mono_def)
    show "cost_f (graph st') c \<le> cost_f (graph st') n"
    proof (cases "n = v")
      case True
      with fv_ge ccur fc show ?thesis by (simp add: f)
    next
      case False
      with a ids ip have "n \<in> open_ids st \<union> in_progress st" by auto
      with mo a(1) cl have "cost_f (graph st) c \<le> cost_f (graph st) n"
        by (simp add: inv_mono_def)
      with False fc show ?thesis by (simp add: f)
    qed
  next
    fix c n assume a: "c \<in> in_progress st'" "n \<in> open_ids st'"
    with ip have [simp]: "c = cur" by simp
    show "cost_f (graph st') c \<le> cost_f (graph st') n"
    proof (cases "n = v")
      case True
      with fv_ge fcur' show ?thesis by (simp add: f)
    next
      case False
      with a ids have "n \<in> open_ids st" by auto
      with mo ip have "cost_f (graph st) cur \<le> cost_f (graph st) n"
        by (simp add: inv_mono_def)
      with False fcur' show ?thesis by (simp add: f)
    qed
  qed
  ultimately show ?thesis by (simp add: running_def pl')
qed


lemma frontier_bound:
  assumes run: "running g0 s e st" and pl: "place st = At_while"
  shows "path g0 p \<Longrightarrow> last p = e \<Longrightarrow> hd p \<in> seen st \<Longrightarrow>
         \<exists>w\<in>open_ids st. cost_g (graph st) w + distance g0 w e
                          \<le> cost_g (graph st) (hd p) + path_length g0 p"
proof (induction p rule: induct_list012)
  case 1
  then show ?case by simp
next
  case (2 u)
  then have ue: "u = e" by simp
  from run have "e \<notin> closed_set st" by (simp add: running_def inv_shape_def)
  with 2 pl ue have "e \<in> open_ids st" by (simp add: seen_simps)
  then show ?case using ue by (intro bexI [of _ e]) (simp_all add: distance_self)
next
  case (3 u v p)
  show ?case
  proof (cases "u \<in> open_ids st")
    case True
    have "distance g0 u e \<le> path_length g0 (u # v # p)"
      using path_triangle [of g0 "u # v # p"] "3.prems" by simp
    with True show ?thesis by (intro bexI [of _ u]) simp_all
  next
    case False
    with "3.prems" pl have uc: "u \<in> closed_set st" by (simp add: seen_simps)
    from "3.prems" have e: "edge g0 u v" and pv: "path g0 (v # p)" and lv: "last (v # p) = e"
      by simp_all
    from run have "inv_edge g0 st" by (simp add: running_def)
    with uc e have v: "v \<in> seen st" "cost_g (graph st) v \<le> cost_g (graph st) u + distance g0 u v"
      by (auto simp: inv_edge_def)
    from "3.IH"(2) [OF pv lv] v(1) obtain w where w: "w \<in> open_ids st"
      "cost_g (graph st) w + distance g0 w e \<le> cost_g (graph st) v + path_length g0 (v # p)"
      by auto
    with v(2) show ?thesis by (intro bexI [of _ w]) auto
  qed
qed

lemma running_found:
  assumes run: "running g0 s e st" and pl: "place st = At_while"
    and rm: "queue_remove (open_set st) = Some (e, q)"
    and st': "st' = st\<lparr>open_set := q, place := At_return\<rparr>"
  shows "finished g0 s e st'"
proof -
  from run have sh: "inv_shape g0 e st" and qu: "inv_queue st" and he: "inv_heur g0 e st"
    and re: "inv_real g0 s st" and ed: "inv_edge g0 st" and mo: "inv_mono st"
    by (simp_all add: running_def)
  from qu have dist: "distinct (map fst (open_set st))" by (simp add: inv_queue_def)
  note rd = queue_remove_distinct [OF rm dist]
  have e_open: "e \<in> open_ids st"
    using rd(3) by (force simp: open_ids_eq)
  then have e_seen: "e \<in> seen st" by (simp add: seen_def)
  have min: "cost_f (graph st) e \<le> cost_f (graph st) n" if "n \<in> open_ids st" for n
  proof -
    from rd(3) obtain p where p: "(e, p) \<in> set (open_set st)" "\<forall>x\<in>set (open_set st). p \<le> snd x"
      by blast
    from that obtain x where x: "x \<in> set (open_set st)" "fst x = n"
      by (auto simp: open_ids_eq)
    from qu p(1) x(1) have "p = cost_f (graph st) e" "snd x = cost_f (graph st) (fst x)"
      by (auto simp: inv_queue_def)
    with p(2) x show ?thesis by auto
  qed
  from sh have "valid g0 e" "same_shape g0 (graph st)" by (simp_all add: inv_shape_def)
  then obtain nd where nd: "get_node (graph st) e = Some nd"
    using same_shape_valid [of g0 "graph st" e] by (auto simp: valid_iff)
  from he e_seen have "cost_h (graph st) e = 0" "cost_f (graph st) e = cost_g (graph st) e"
    by (simp_all add: inv_heur_def distance_self)
  with nd have hf: "h_cost nd = 0" "f_cost nd = g_cost nd"
    by (simp_all add: cost_simps)
  from re e_seen obtain pe where pe: "connects g0 s e pe" "path_length g0 pe = cost_g (graph st) e"
    by (auto simp: inv_real_def)
  have lower: "cost_g (graph st) e \<le> path_length g0 p" if "connects g0 s e p" for p
  proof -
    from that have "path g0 p" "last p = e" "hd p = s" by (simp_all add: connects_def)
    moreover from re have "s \<in> seen st" "cost_g (graph st) s = 0" by (simp_all add: inv_real_def)
    ultimately obtain w where w: "w \<in> open_ids st"
      "cost_g (graph st) w + distance g0 w e \<le> path_length g0 p"
      using frontier_bound [OF run pl, of p] by auto
    from w(1) have "w \<in> seen st" by (simp add: seen_def)
    with he have "cost_f (graph st) w = cost_g (graph st) w + distance g0 w e"
      by (simp add: inv_heur_def)
    with min [OF w(1)] w(2) \<open>cost_f (graph st) e = cost_g (graph st) e\<close> show ?thesis by simp
  qed
  have "shortest g0 s e (g_cost nd)"
    unfolding shortest_def using pe lower nd by (auto simp: cost_simps)
  with nd hf show ?thesis by (simp add: finished_def st')
qed

lemma closed_reaches:
  assumes ed: "inv_edge g0 st" and sn: "seen st = closed_set st"
  shows "path g0 p \<Longrightarrow> hd p \<in> closed_set st \<Longrightarrow> last p \<in> closed_set st"
proof (induction p rule: induct_list012)
  case (3 u v p)
  from "3.prems" ed sn have "v \<in> closed_set st" by (auto simp: inv_edge_def)
  with 3 show ?case by simp
qed simp_all

lemma running_empty:
  assumes run: "running g0 s e st" and pl: "place st = At_while"
    and em: "open_set st = []" and st': "st' = st\<lparr>place := At_return\<rparr>"
  shows "finished g0 s e st'"
proof -
  from run have sh: "inv_shape g0 e st" and re: "inv_real g0 s st" and ed: "inv_edge g0 st"
    by (simp_all add: running_def)
  have sn: "seen st = closed_set st"
    using pl em by (simp add: seen_simps open_ids_eq)
  have "closed_set st = {n. reachable g0 s n}"
  proof (intro set_eqI iffI)
    fix n assume "n \<in> closed_set st"
    with re sn show "n \<in> {n. reachable g0 s n}" by (auto simp: inv_real_def reachable_def)
  next
    fix n assume "n \<in> {n. reachable g0 s n}"
    then obtain p where "path g0 p" "hd p = s" "last p = n"
      by (auto simp: reachable_def connects_def)
    moreover from re sn have "s \<in> closed_set st" by (simp add: inv_real_def)
    ultimately show "n \<in> closed_set st" using closed_reaches [OF ed sn, of p] by auto
  qed
  moreover from sh have e: "e \<notin> closed_set st" by (simp add: inv_shape_def)
  moreover from sh e sn have "get_node (graph st) e = get_node g0 e" by (simp add: inv_shape_def)
  ultimately show ?thesis by (auto simp: finished_def st')
qed

lemma search_step:
  assumes "running g0 s e st \<or> finished g0 s e st" and "step e st = Some st'"
  shows "running g0 s e st' \<or> finished g0 s e st'"
  using assms(2)
proof (cases rule: step_cases)
  case return
  with assms(1) show ?thesis by (auto simp: running_def)
next
  case empty
  with assms(1) have "running g0 s e st" by (auto simp: finished_def)
  from running_empty [OF this empty] show ?thesis ..
next
  case (found q)
  with assms(1) have "running g0 s e st" by (auto simp: finished_def)
  from running_found [OF this found] show ?thesis ..
next
  case (dequeue cur q nd)
  with assms(1) have "running g0 s e st" by (auto simp: finished_def)
  from running_dequeue [OF this dequeue] show ?thesis ..
next
  case (close cur)
  with assms(1) have "running g0 s e st" by (auto simp: finished_def)
  from running_close [OF this close] show ?thesis ..
next
  case (relax cur v rest st1)
  with assms(1) have run: "running g0 s e st" by (auto simp: finished_def)
  then have sh: "same_shape g0 (graph st)" by (simp add: running_def inv_shape_def)
  have gr: "graph st' = graph st1" and op: "open_set st' = open_set st1"
    and cl: "closed_set st' = closed_set st1" and pl': "place st' = At_neighbors cur rest"
    by (simp_all add: relax(3))
  from relax(2) sh have "running g0 s e st'"
  proof (cases rule: relax_obs)
    case skip
    show ?thesis
      by (rule running_skip [OF run relax(1) skip(1-4) _ _ pl'])
        (simp_all add: gr op cl skip)
  next
    case update
    show ?thesis
      by (rule running_update [OF run relax(1) update(1-5) _ _ pl'])
        (simp_all add: gr op cl update)
  qed
  then show ?thesis ..
qed


section \<open>Runs without faults\<close>

definition light :: "graph_t \<Rightarrow> nat \<Rightarrow> search \<Rightarrow> bool" where
  "light g0 e st \<longleftrightarrow>
     same_shape g0 (graph st) \<and> valid g0 e \<and> e \<notin> closed_set st \<and> e \<notin> in_progress st \<and>
     (\<forall>n\<in>seen st. valid g0 n) \<and>
     (\<forall>cur rest. place st = At_neighbors cur rest \<longrightarrow> (\<forall>v\<in>set rest. edge g0 cur v)) \<and>
     (\<forall>n\<in>seen st. cost_h (graph st) n = distance g0 n e \<and>
                   cost_f (graph st) n = cost_g (graph st) n + distance g0 n e)"

lemma init_effect:
  assumes "a_star_init g s e = Some st"
  shows "\<exists>ns ne. get_node g s = Some ns \<and> get_node g e = Some ne \<and>
           get_node (graph st) =
             (get_node g)(s \<mapsto> ns\<lparr>f_cost := g_cost ns + euclid ns ne, h_cost := euclid ns ne\<rparr>) \<and>
           open_set st = [(s, g_cost ns + euclid ns ne)] \<and> closed_set st = {} \<and>
           place st = At_while \<and> same_size g (graph st)"
proof -
  from assms obtain g1 g2 f where g1: "set_h_cost g s e = Some g1" and g2: "set_f_cost g1 s = Some g2"
    and f: "fcost g2 s = Some f"
    and st: "st = \<lparr>graph = g2, open_set = queue_add queue_create s f,
                   closed_set = set_create, place = At_while\<rparr>"
    by (auto simp: a_star_init_def bind_eq_Some_conv)
  from set_h_cost_effect [OF g1] obtain ns ne where
    ns: "get_node g s = Some ns" and ne: "get_node g e = Some ne" and sz1: "same_size g g1" and
    n1: "\<And>n. get_node g1 n = (if n = s then Some (ns\<lparr>h_cost := euclid ns ne\<rparr>) else get_node g n)"
    by blast
  from set_f_cost_effect [OF g2] n1 [of s] have sz2: "same_size g1 g2" and
    n2: "\<And>n. get_node g2 n =
          (if n = s then Some (ns\<lparr>h_cost := euclid ns ne, f_cost := g_cost ns + euclid ns ne\<rparr>)
           else get_node g1 n)"
    by auto
  have "get_node g2 = (get_node g)(s \<mapsto> ns\<lparr>f_cost := g_cost ns + euclid ns ne, h_cost := euclid ns ne\<rparr>)"
    using n1 n2 by auto
  moreover have "f = g_cost ns + euclid ns ne"
    using f n2 [of s] by (simp add: fcost_def)
  moreover have "same_size g g2"
    using sz1 sz2 by (rule same_size_trans)
  ultimately show ?thesis
    using ns ne st by (simp add: queue_add_def queue_create_def set_create_def)
qed

lemma init_succeeds:
  assumes "valid g s" and "valid g e"
  shows "\<exists>st. a_star_init g s e = Some st"
proof -
  from assms obtain ns ne where n: "get_node g s = Some ns" "get_node g e = Some ne"
    by (auto simp: valid_iff)
  then obtain g1 where g1: "set_h_cost g s e = Some g1"
    by (auto simp: set_h_cost_def calculate_distance_def upd_node_def)
  with set_h_cost_effect [OF g1] obtain g2 where g2: "set_f_cost g1 s = Some g2"
    by (auto simp: set_f_cost_def upd_node_def)
  with set_f_cost_effect [OF g2] obtain f where "fcost g2 s = Some f"
    by (auto simp: fcost_def)
  with g1 g2 show ?thesis by (simp add: a_star_init_def)
qed

lemma init_observers:
  assumes "a_star_init g s e = Some st"
  shows "same_shape g (graph st)" and "valid g s" and "valid g e"
    and "seen st = {s}" and "open_ids st = {s}" and "closed_set st = {}" and "place st = At_while"
    and "cost_g (graph st) s = cost_g g s"
    and "cost_h (graph st) s = distance g s e"
    and "cost_f (graph st) s = cost_g g s + distance g s e"
    and "open_set st = [(s, cost_f (graph st) s)]"
    and "\<And>n. n \<noteq> s \<Longrightarrow> get_node (graph st) n = get_node g n"
proof -
  from init_effect [OF assms] obtain ns ne where ns: "get_node g s = Some ns"
    and ne: "get_node g e = Some ne"
    and gr: "get_node (graph st) =
             (get_node g)(s \<mapsto> ns\<lparr>f_cost := g_cost ns + euclid ns ne, h_cost := euclid ns ne\<rparr>)"
    and op: "open_set st = [(s, g_cost ns + euclid ns ne)]" and cl: "closed_set st = {}"
    and pl: "place st = At_while"
    by blast
  show "same_shape g (graph st)"
    by (rule same_shape_update [OF same_shape_refl ns gr]) simp_all
  show "valid g s" "valid g e" using ns ne by (simp_all add: valid_iff)
  show ids: "open_ids st = {s}" by (simp add: open_ids_eq op)
  show "closed_set st = {}" by (rule cl)
  show "place st = At_while" by (rule pl)
  show "seen st = {s}" using ids cl pl by (simp add: seen_simps)
  have d: "euclid ns ne = distance g s e" using ns ne by (simp add: distance_euclid)
  show "cost_g (graph st) s = cost_g g s" using ns by (simp add: cost_g_def gr)
  show "cost_h (graph st) s = distance g s e" using d by (simp add: cost_h_def gr)
  show f: "cost_f (graph st) s = cost_g g s + distance g s e"
    using d ns by (simp add: cost_f_def cost_g_def gr)
  show "open_set st = [(s, cost_f (graph st) s)]"
    using op f d ns by (simp add: cost_g_def)
  show "\<And>n. n \<noteq> s \<Longrightarrow> get_node (graph st) n = get_node g n" by (simp add: gr)
qed

lemma init_light:
  assumes "a_star_init g s e = Some st"
  shows "light g e st"
  using init_observers [OF assms] by (simp add: light_def in_progress_simps)

lemma init_running:
  assumes "a_star_init g s e = Some st" and "cost_g g s = 0"
  shows "running g s e st"
proof -
  note io = init_observers [OF assms(1)]
  have "inv_shape g e st"
    using io by (simp add: inv_shape_def in_progress_simps)
  moreover have "inv_queue st"
    using io(11) by (simp add: inv_queue_def)
  moreover have "inv_heur g e st"
    using io assms(2) by (simp add: inv_heur_def)
  moreover have "inv_real g s st"
    using io assms(2) connects_single [of g s] by (auto simp: inv_real_def)
  moreover have "inv_edge g st"
    using io by (simp add: inv_edge_def)
  moreover have "inv_mono st"
    using io by (simp add: inv_mono_def in_progress_simps)
  ultimately show ?thesis using io(7) by (simp add: running_def)
qed


lemma queue_remove_ids:
  assumes "queue_remove q = Some (cur, q')"
  shows "cur \<in> fst ` set q" and "fst ` set q' \<subseteq> fst ` set q"
proof -
  from queue_remove_Some [OF assms] obtain p where
    p: "(cur, p) \<in> set q" and q': "q' = remove1 (cur, p) q"
    by blast
  show "cur \<in> fst ` set q" using p by force
  show "fst ` set q' \<subseteq> fst ` set q"
    using q' set_remove1_subset [of "(cur, p)" q] by auto
qed

lemma light_shrink:
  assumes li: "light g0 e st" and "graph st' = graph st" and "closed_set st' = closed_set st"
    and "seen st' \<subseteq> seen st" and "place st' = At_return"
  shows "light g0 e st'"
  unfolding light_def
proof (intro conjI ballI allI impI)
  show "same_shape g0 (graph st')" "valid g0 e" "e \<notin> closed_set st'"
    using li assms(2,3) by (simp_all add: light_def)
  show "e \<notin> in_progress st'" using assms(5) by (simp add: in_progress_def)
  show "valid g0 n" if "n \<in> seen st'" for n
    using that li assms(4) by (auto simp: light_def)
  show "edge g0 c v" if "place st' = At_neighbors c r" "v \<in> set r" for c r v
    using that assms(5) by simp
  show "cost_h (graph st') n = distance g0 n e"
    "cost_f (graph st') n = cost_g (graph st') n + distance g0 n e" if "n \<in> seen st'" for n
    using that li assms(2,4) by (auto simp: light_def)
qed

lemma light_relax:
  assumes li: "light g0 e st" and pl: "place st = At_neighbors cur (v # rest)"
    and sh': "same_shape g0 (graph st')" and cl: "closed_set st' = closed_set st"
    and pl': "place st' = At_neighbors cur rest"
    and sn: "seen st' \<subseteq> insert v (seen st)" and v: "valid g0 v"
    and g: "\<And>n. n \<noteq> v \<Longrightarrow> cost_g (graph st') n = cost_g (graph st) n"
    and f: "\<And>n. n \<noteq> v \<Longrightarrow> cost_f (graph st') n = cost_f (graph st) n"
    and h: "\<And>n. n \<noteq> v \<Longrightarrow> cost_h (graph st') n = cost_h (graph st) n"
    and hv: "cost_h (graph st') v = distance g0 v e"
    and fv: "cost_f (graph st') v = cost_g (graph st') v + distance g0 v e"
  shows "light g0 e st'"
  unfolding light_def
proof (intro conjI ballI allI impI)
  show "same_shape g0 (graph st')" by (rule sh')
  show "valid g0 e" "e \<notin> closed_set st'" using li cl by (simp_all add: light_def)
  show "e \<notin> in_progress st'" using li pl pl' by (simp add: light_def in_progress_def)
  show "valid g0 n" if "n \<in> seen st'" for n
    using that li sn v by (auto simp: light_def)
  show "edge g0 c w" if "place st' = At_neighbors c r" "w \<in> set r" for c r w
    using that li pl pl' by (simp add: light_def)
  fix n assume n: "n \<in> seen st'"
  show "cost_h (graph st') n = distance g0 n e"
  proof (cases "n = v")
    case True
    with hv show ?thesis by simp
  next
    case False
    with n sn li h [of n] show ?thesis by (auto simp: light_def)
  qed
  show "cost_f (graph st') n = cost_g (graph st') n + distance g0 n e"
  proof (cases "n = v")
    case True
    with fv show ?thesis by simp
  next
    case False
    with n sn li f [of n] g [of n] show ?thesis by (auto simp: light_def)
  qed
qed

lemma light_step:
  assumes li: "light g0 e st" and "step e st = Some st'"
  shows "light g0 e st'"
  using assms(2)
proof (cases rule: step_cases)
  case return
  with li show ?thesis by simp
next
  case empty
  show ?thesis
    by (rule light_shrink [OF li]) (simp_all add: empty(3) seen_def open_ids_def in_progress_def)
next
  case (found q)
  from queue_remove_ids [OF found(2)] have "seen st' \<subseteq> seen st"
    by (auto simp: seen_def open_ids_eq in_progress_def found)
  then show ?thesis
    by (intro light_shrink [OF li]) (simp_all add: found(3))
next
  case (dequeue cur q nd)
  from queue_remove_ids [OF dequeue(2)] have sn: "seen st' \<subseteq> seen st"
    and ip: "in_progress st' = {cur}"
    by (auto simp: seen_def open_ids_eq in_progress_def dequeue)
  have nbrs: "edge g0 cur v \<longleftrightarrow> v \<in> set (neighbors nd)" for v
    using li dequeue(4) same_shape_edge [of g0 "graph st" cur v]
    by (simp add: light_def edge_def)
  have gr: "graph st' = graph st" and cl: "closed_set st' = closed_set st"
    and pl': "place st' = At_neighbors cur (neighbors nd)"
    by (simp_all add: dequeue(5))
  show ?thesis
    unfolding light_def
  proof (intro conjI ballI allI impI)
    show "same_shape g0 (graph st')" "valid g0 e" "e \<notin> closed_set st'"
      using li gr cl by (simp_all add: light_def)
    show "e \<notin> in_progress st'" using ip dequeue(3) by simp
    show "valid g0 n" if "n \<in> seen st'" for n
      using that li sn by (auto simp: light_def)
    show "edge g0 c v" if "place st' = At_neighbors c r" "v \<in> set r" for c r v
      using that pl' nbrs by simp
    show "cost_h (graph st') n = distance g0 n e"
      "cost_f (graph st') n = cost_g (graph st') n + distance g0 n e" if "n \<in> seen st'" for n
      using that li gr sn by (auto simp: light_def)
  qed
next
  case (close cur)
  from close have sn: "seen st' = seen st" and ip: "in_progress st = {cur}" "in_progress st' = {}"
    by (auto simp: seen_def open_ids_def in_progress_def)
  have gr: "graph st' = graph st" and cl: "closed_set st' = insert cur (closed_set st)"
    and pl': "place st' = At_while"
    by (simp_all add: close(2))
  show ?thesis
    unfolding light_def
  proof (intro conjI ballI allI impI)
    show "same_shape g0 (graph st')" "valid g0 e"
      using li gr by (simp_all add: light_def)
    show "e \<notin> closed_set st'" using li ip cl by (auto simp: light_def)
    show "e \<notin> in_progress st'" using ip by simp
    show "valid g0 n" if "n \<in> seen st'" for n
      using that li sn by (auto simp: light_def)
    show "edge g0 c v" if "place st' = At_neighbors c r" "v \<in> set r" for c r v
      using that pl' by simp
    show "cost_h (graph st') n = distance g0 n e"
      "cost_f (graph st') n = cost_g (graph st') n + distance g0 n e" if "n \<in> seen st'" for n
      using that li gr sn by (auto simp: light_def)
  qed
next
  case (relax cur v rest st1)
  from li have sh: "same_shape g0 (graph st)" by (simp add: light_def)
  have gr: "graph st' = graph st1" and op: "open_set st' = open_set st1"
    and cl: "closed_set st' = closed_set st1" and pl': "place st' = At_neighbors cur rest"
    by (simp_all add: relax(3))
  have ip: "in_progress st' = {cur}" "in_progress st = {cur}"
    using relax(1) pl' by (simp_all add: in_progress_def)
  from relax(2) sh show ?thesis
  proof (cases rule: relax_obs)
    case skip
    have "open_ids st' = open_ids st"
      by (simp add: open_ids_def op skip(5))
    then have sn: "seen st' \<subseteq> insert v (seen st)"
      using ip by (auto simp: seen_def cl skip(6))
    have vs: "v \<in> seen st" using skip(4) by (auto simp: seen_def)
    with li have "cost_f (graph st) v = cost_g (graph st) v + distance g0 v e"
      by (simp add: light_def)
    then show ?thesis
      by (intro light_relax [OF li relax(1) _ _ pl' sn skip(2)])
        (simp_all add: gr cl skip(6,8-11))
  next
    case update
    have "open_ids st' = insert v (open_ids st)"
      unfolding open_ids_def op update(6) by auto
    then have sn: "seen st' \<subseteq> insert v (seen st)"
      using ip by (auto simp: seen_def cl update(7))
    show ?thesis
      by (intro light_relax [OF li relax(1) _ _ pl' sn update(2)])
        (simp_all add: gr cl update(7,9-12))
  qed
qed

lemma get_node_in_set:
  assumes "get_node g n = Some nd"
  shows "Some nd \<in> set (nodes g)"
proof -
  from assms have "n < length (nodes g)" "nodes g ! n = Some nd"
    by (auto simp: get_node_def split: if_splits)
  with nth_mem [of n "nodes g"] show ?thesis by simp
qed

lemma well_formed_edge:
  assumes "well_formed g" and "edge g u v"
  shows "valid g v"
proof -
  from assms(2) obtain nd where nd: "get_node g u = Some nd" "v \<in> set (neighbors nd)"
    by (auto simp: edge_iff)
  then have "Some nd \<in> set (nodes g)"
    by (simp add: get_node_in_set)
  with assms(1) nd(2) show ?thesis by (auto simp: well_formed_def)
qed

lemma light_step_succeeds:
  assumes li: "light g0 e st" and wf: "well_formed g0"
  shows "step e st \<noteq> None"
proof (cases "place st")
  case At_return
  then show ?thesis by (simp add: step_def)
next
  case At_while
  show ?thesis
  proof (cases "open_set st = []")
    case True
    with At_while show ?thesis by (simp add: step_def queue_is_empty_def)
  next
    case False
    then obtain cur q where rm: "queue_remove (open_set st) = Some (cur, q)"
      using queue_remove_None [of "open_set st"] by (cases "queue_remove (open_set st)") auto
    from queue_remove_ids(1) [OF rm] have "cur \<in> seen st"
      by (simp add: seen_def open_ids_eq)
    with li have "valid (graph st) cur"
      using same_shape_valid [of g0 "graph st" cur] by (simp add: light_def)
    with rm False At_while show ?thesis
      by (auto simp: step_def queue_is_empty_def valid_iff)
  qed
next
  case (At_neighbors cur ns)
  show ?thesis
  proof (cases ns)
    case Nil
    with At_neighbors show ?thesis by (simp add: step_def)
  next
    case (Cons v rest)
    from li have sh: "same_shape g0 (graph st)" by (simp add: light_def)
    from At_neighbors have "cur \<in> seen st" by (simp add: seen_simps)
    with li have "valid g0 cur" "valid g0 e" by (simp_all add: light_def)
    moreover from li At_neighbors Cons have "edge g0 cur v" by (simp add: light_def)
    with wf have "valid g0 v" by (rule well_formed_edge)
    ultimately have "relax cur e v st \<noteq> None"
      using same_shape_valid [OF sh] by (intro relax_succeeds) (simp_all add: valid_def)
    with At_neighbors Cons show ?thesis by (auto simp: step_def)
  qed
qed

lemma run_succeeds:
  assumes "well_formed g" and "valid g s" and "valid g e"
  shows "\<exists>st0 st. a_star_init g s e = Some st0 \<and> a_star_run g s e = Some st \<and>
           place st = At_return \<and> (\<exists>k. steps e k st0 = Some st)"
proof -
  from init_succeeds [OF assms(2,3)] obtain st0 where st0: "a_star_init g s e = Some st0" by blast
  have "\<exists>st. a_star_loop e st0 = Some st"
    using init_light [OF st0] light_step light_step_succeeds [OF _ assms(1)]
    by (rule loop_total [where P = "light g e"])
  then obtain st where st: "a_star_loop e st0 = Some st" by blast
  with st0 have "a_star_run g s e = Some st" by (simp add: a_star_run_def)
  with st0 loop_steps [OF st] show ?thesis by blast
qed

lemma fresh_cost_g:
  assumes "fresh g"
  shows "cost_g g n = 0"
proof (cases "get_node g n")
  case None
  then show ?thesis by (simp add: cost_g_def)
next
  case (Some nd)
  then have "Some nd \<in> set (nodes g)"
    by (simp add: get_node_in_set)
  with assms Some show ?thesis by (auto simp: fresh_def cost_g_def)
qed

lemma run_finished:
  assumes "well_formed g" and "fresh g" and "valid g s" and "valid g e"
  shows "\<exists>st. a_star_run g s e = Some st \<and> finished g s e st"
proof -
  from run_succeeds [OF assms(1,3,4)] obtain st0 st k where
    st0: "a_star_init g s e = Some st0" and st: "a_star_run g s e = Some st"
    and pl: "place st = At_return" and k: "steps e k st0 = Some st"
    by blast
  have "running g s e st0 \<or> finished g s e st0"
    using init_running [OF st0 fresh_cost_g [OF assms(2)]] ..
  then have "running g s e st \<or> finished g s e st"
    using search_step k by (rule steps_invariant [where P = "\<lambda>st. running g s e st \<or> finished g s e st"])
  with pl have "finished g s e st" by (simp add: running_def)
  with st show ?thesis by blast
qed

lemma a_star_result:
  assumes "a_star_run g s e = Some st" and "get_node (graph st) e = Some nd"
  shows "a_star g s e = Some (if g_cost nd = 0 then - 1 else f_cost nd)"
  using assms by (simp add: a_star_def gcost_def fcost_def)

section \<open>What the search returns\<close>

lemma reachable_valid:
  assumes "reachable g s e"
  shows "valid g s" and "valid g e"
  using assms path_valid_hd path_valid_last by (auto simp: reachable_def connects_def)

lemma shortest_nonneg: "shortest g s e d \<Longrightarrow> 0 \<le> d"
  using path_length_nonneg by (auto simp: shortest_def)

lemma finished_node:
  assumes "finished g s e st" and "valid g e"
  shows "\<exists>nd. get_node (graph st) e = Some nd"
  using assms by (auto simp: finished_def valid_iff)

text \<open>
  With costs as real numbers, the search is optimal for every goal at a distance other
  than 0: in a well-formed graph with fresh costs, a goal that is reachable from the
  start has a shortest path, and when its length is not 0 the function returns that length.
\<close>

theorem a_star_shortest_path:
  assumes "well_formed g" and "fresh g" and "reachable g s e"
  shows "\<exists>d. shortest g s e d \<and> (d \<noteq> 0 \<longrightarrow> a_star g s e = Some d)"
proof -
  note v = reachable_valid [OF assms(3)]
  from run_finished [OF assms(1,2) v] obtain st where
    st: "a_star_run g s e = Some st" and fin: "finished g s e st"
    by blast
  from fin assms(3) obtain nd where nd: "get_node (graph st) e = Some nd"
    and sh: "shortest g s e (g_cost nd)" and f: "f_cost nd = g_cost nd"
    by (auto simp: finished_def)
  from a_star_result [OF st nd] f have "g_cost nd \<noteq> 0 \<longrightarrow> a_star g s e = Some (g_cost nd)"
    by simp
  with sh show ?thesis by blast
qed

lemma two_cities_facts:
  "well_formed two_cities" "fresh two_cities" "reachable two_cities 0 1"
  "reachable two_cities 1 1" "distance two_cities 0 1 = 5"
proof -
  show "well_formed two_cities"
    by (simp add: well_formed_def two_cities_def city_def valid_def get_node_def)
  show "fresh two_cities"
    by (simp add: fresh_def two_cities_def city_def)
  have "connects two_cities 0 1 [0, 1]"
    by (simp add: connects_def edge_def valid_def two_cities_def city_def get_node_def)
  then show "reachable two_cities 0 1" by (auto simp: reachable_def)
  have "connects two_cities 1 1 [1]"
    by (simp add: connects_def valid_def two_cities_def city_def get_node_def)
  then show "reachable two_cities 1 1" by (auto simp: reachable_def)
  show "distance two_cities 0 1 = 5"
    by (simp add: distance_def calculate_distance_def two_cities_def city_def get_node_def sqrt_25)
qed

theorem a_star_shortest_path_witness:
  "well_formed two_cities \<and> fresh two_cities \<and> reachable two_cities 0 1 \<and>
   shortest two_cities 0 1 5 \<and> a_star two_cities 0 1 = Some 5"
proof -
  from a_star_shortest_path [OF two_cities_facts(1-3)] obtain d where
    d: "shortest two_cities 0 1 d" "d \<noteq> 0 \<longrightarrow> a_star two_cities 0 1 = Some d"
    by blast
  have ev: "a_star two_cities 0 1 = Some 5"
    by (simp add: two_cities_def search_defs sqrt_25)
  from d(1) obtain p where "connects two_cities 0 1 p" "path_length two_cities p = d"
    by (auto simp: shortest_def)
  with connects_triangle [of two_cities 0 1 p] two_cities_facts(5) have "5 \<le> d" by simp
  with d(2) ev have "d = 5" by simp
  with d(1) ev two_cities_facts show ?thesis by simp
qed

lemma two_cities_zero_distance:
  "well_formed two_cities \<and> fresh two_cities \<and> reachable two_cities 1 1 \<and>
   shortest two_cities 1 1 0"
proof -
  have "connects two_cities 1 1 [1]"
    by (simp add: connects_def valid_def two_cities_def city_def get_node_def)
  then have "shortest two_cities 1 1 0"
    unfolding shortest_def using path_length_nonneg [of two_cities]
    by (intro conjI exI [of _ "[1]"]) auto
  then show ?thesis using two_cities_facts by simp
qed

text \<open>
  C1.  The claim is that the search returns the length of a shortest path for every goal
  reachable from the start.  A goal at distance 0 is reachable, and there the function
  returns the sentinel \<open>-1\<close>, because the test behind the loop takes a \<^verbatim>\<open>g_cost\<close> of 0 for
  "never reached": on \<open>two_cities\<close>, a well-formed graph with fresh costs, the path from
  node 1 to node 1 has length 0 (it is the shortest, \<open>two_cities_zero_distance\<close>), and the
  function returns \<open>-1\<close>.
\<close>

theorem zero_distance_sentinel:
  "connects two_cities 1 1 [1] \<and> path_length two_cities [1] = 0 \<and>
   a_star two_cities 1 1 = Some (- 1)"
proof -
  have "connects two_cities 1 1 [1]"
    by (simp add: connects_def valid_def two_cities_def city_def get_node_def)
  moreover have "a_star two_cities 1 1 = Some (- 1)"
    by (simp add: two_cities_def search_defs sqrt_25)
  ultimately show ?thesis by simp
qed

text \<open>
  C3.  In a well-formed graph with fresh costs the search from a valid start to a valid
  goal ends, and what it returns is decided by the \<^verbatim>\<open>g_cost\<close> of the goal behind the loop:
  \<open>-1\<close> when it is 0, the \<^verbatim>\<open>f_cost\<close> of the goal otherwise.  For a goal that is not
  reachable that is \<open>-1\<close>.  For a reachable goal whose \<^verbatim>\<open>g_cost\<close>, the length of the path
  the search found, is not 0, it is a positive number.
\<close>

theorem a_star_sentinel:
  assumes "well_formed g" and "fresh g" and "valid g s" and "valid g e"
  shows "\<exists>st nd. a_star_run g s e = Some st \<and> get_node (graph st) e = Some nd \<and>
           a_star g s e = Some (if g_cost nd = 0 then - 1 else f_cost nd) \<and>
           (\<not> reachable g s e \<longrightarrow> a_star g s e = Some (- 1)) \<and>
           (reachable g s e \<longrightarrow> g_cost nd \<noteq> 0 \<longrightarrow> (\<exists>r. a_star g s e = Some r \<and> 0 < r))"
proof -
  from run_finished [OF assms] obtain st where
    st: "a_star_run g s e = Some st" and fin: "finished g s e st"
    by blast
  from finished_node [OF fin assms(4)] obtain nd where nd: "get_node (graph st) e = Some nd"
    by blast
  note res = a_star_result [OF st nd]
  have "a_star g s e = Some (- 1)" if "\<not> reachable g s e"
  proof -
    from that fin nd have "get_node g e = Some nd" by (auto simp: finished_def shortest_def reachable_def)
    with fresh_cost_g [OF assms(2), of e] have "g_cost nd = 0" by (simp add: cost_g_def)
    with res show ?thesis by simp
  qed
  moreover have "\<exists>r. a_star g s e = Some r \<and> 0 < r" if "reachable g s e" "g_cost nd \<noteq> 0"
  proof -
    from that(1) fin nd have "shortest g s e (g_cost nd)" "f_cost nd = g_cost nd"
      by (auto simp: finished_def)
    with shortest_nonneg [of g s e "g_cost nd"] that(2) res show ?thesis by simp
  qed
  ultimately show ?thesis using st nd res by blast
qed

lemma mainland_island_facts:
  "well_formed mainland_island" "fresh mainland_island" "valid mainland_island 0"
  "valid mainland_island 2" "\<not> reachable mainland_island 0 2"
  "{n. reachable mainland_island 0 n} = {0, 1}"
proof -
  show "well_formed mainland_island"
    by (simp add: well_formed_def mainland_island_def city_def valid_def get_node_def)
  show "fresh mainland_island"
    by (simp add: fresh_def mainland_island_def city_def)
  show "valid mainland_island 0" "valid mainland_island 2"
    by (simp_all add: mainland_island_def city_def valid_def get_node_def)
  have e0: "edge mainland_island 0 v \<longleftrightarrow> v = 1" for v
    by (simp add: edge_def mainland_island_def city_def get_node_def)
  have e1: "edge mainland_island 1 v \<longleftrightarrow> v = 0" for v
    by (simp add: edge_def mainland_island_def city_def get_node_def)
  have stay: "path mainland_island p \<Longrightarrow> hd p \<in> {0, 1} \<Longrightarrow> last p \<in> {0, 1}" for p
  proof (induction p rule: induct_list012)
    case (3 u v p)
    from "3.prems" have "u = 0 \<or> u = 1" "edge mainland_island u v" by simp_all
    with e0 e1 have "v \<in> {0, 1}" by auto
    with 3 show ?case by simp
  qed simp_all
  have c0: "connects mainland_island 0 0 [0]" and c1: "connects mainland_island 0 1 [0, 1]"
    by (simp_all add: connects_def edge_def valid_def mainland_island_def city_def get_node_def)
  show "{n. reachable mainland_island 0 n} = {0, 1}"
  proof (intro set_eqI iffI)
    fix n assume "n \<in> {n. reachable mainland_island 0 n}"
    then obtain p where "path mainland_island p" "hd p = 0" "last p = n"
      by (auto simp: reachable_def connects_def)
    with stay [of p] show "n \<in> {0, 1}" by simp
  next
    fix n :: nat assume "n \<in> {0, 1}"
    then have "n = 0 \<or> n = 1" by simp
    with c0 c1 show "n \<in> {n. reachable mainland_island 0 n}"
      unfolding reachable_def by blast
  qed
  then have "2 \<notin> {n. reachable mainland_island 0 n}" by simp
  then show "\<not> reachable mainland_island 0 2" by simp
qed

theorem a_star_sentinel_witness:
  "well_formed mainland_island \<and> fresh mainland_island \<and> valid mainland_island 0 \<and>
   valid mainland_island 1 \<and> valid mainland_island 2 \<and>
   \<not> reachable mainland_island 0 2 \<and> a_star mainland_island 0 2 = Some (- 1) \<and>
   reachable mainland_island 0 1 \<and> a_star mainland_island 0 1 = Some 1"
proof -
  note f = mainland_island_facts
  have v1: "valid mainland_island 1"
    by (simp add: mainland_island_def city_def valid_def get_node_def)
  have r1: "reachable mainland_island 0 1"
    using f(6) by auto
  have ev: "a_star mainland_island 0 1 = Some 1"
    by (simp add: mainland_island_def search_defs)
  from a_star_sentinel [OF f(1-4)] f(5) have "a_star mainland_island 0 2 = Some (- 1)"
    by blast
  moreover from a_star_sentinel [OF f(1-3) v1] r1 ev
  have "\<exists>r. a_star mainland_island 0 1 = Some r \<and> 0 < r"
    by auto
  ultimately show ?thesis using f v1 r1 ev by simp
qed

text \<open>
  C9.  In a well-formed graph with fresh costs, when the goal is not reachable from the
  start, the search ends with the closed set holding exactly the nodes reachable from the
  start (the connected component of the start, when every edge was added by \<^verbatim>\<open>add_edge\<close>).
\<close>

theorem closed_set_is_component:
  assumes "well_formed g" and "fresh g" and "valid g s" and "valid g e"
    and "\<not> reachable g s e"
  shows "\<exists>st. a_star_run g s e = Some st \<and> closed_set st = {n. reachable g s n}"
proof -
  from run_finished [OF assms(1-4)] obtain st where
    st: "a_star_run g s e = Some st" and fin: "finished g s e st"
    by blast
  from fin assms(5) have "closed_set st = {n. reachable g s n}"
    by (auto simp: finished_def shortest_def reachable_def)
  with st show ?thesis by blast
qed

theorem closed_set_is_component_witness:
  "well_formed mainland_island \<and> fresh mainland_island \<and> valid mainland_island 0 \<and>
   valid mainland_island 2 \<and> \<not> reachable mainland_island 0 2 \<and>
   (\<exists>st. a_star_run mainland_island 0 2 = Some st \<and> closed_set st = {0, 1})"
  using closed_set_is_component [OF mainland_island_facts(1-5)] mainland_island_facts by auto

text \<open>
  At the moment the goal is dequeued its \<^verbatim>\<open>h_cost\<close> is 0 and its \<^verbatim>\<open>f_cost\<close> equals its
  \<^verbatim>\<open>g_cost\<close>, in every graph; when that \<^verbatim>\<open>g_cost\<close> is not 0 the function returns this
  \<^verbatim>\<open>f_cost\<close>.
\<close>

theorem found_returns_g_cost:
  assumes "a_star_init g s e = Some st0" and "steps e k st0 = Some st"
    and "place st = At_while" and "queue_remove (open_set st) = Some (e, q)"
  shows "\<exists>nd. get_node (graph st) e = Some nd \<and> h_cost nd = 0 \<and> f_cost nd = g_cost nd \<and>
           (g_cost nd \<noteq> 0 \<longrightarrow> a_star g s e = Some (f_cost nd))"
proof -
  have li: "light g e st"
    using steps_invariant [where P = "light g e", OF init_light [OF assms(1)] _ assms(2)]
      light_step by blast
  from queue_remove_ids(1) [OF assms(4)] have es: "e \<in> seen st"
    by (simp add: seen_def open_ids_eq)
  with li have "valid g e" "same_shape g (graph st)" by (simp_all add: light_def)
  then obtain nd where nd: "get_node (graph st) e = Some nd"
    using same_shape_valid [of g "graph st" e] by (auto simp: valid_iff)
  from li es have "cost_h (graph st) e = 0" "cost_f (graph st) e = cost_g (graph st) e"
    by (simp_all add: light_def distance_self)
  with nd have hf: "h_cost nd = 0" "f_cost nd = g_cost nd"
    by (simp_all add: cost_simps)
  let ?st' = "st\<lparr>open_set := q, place := At_return\<rparr>"
  have "open_set st \<noteq> []"
    using assms(4) queue_remove_None [of "open_set st"] by auto
  then have stp: "step e st = Some ?st'"
    using assms(3,4) by (simp add: step_def queue_is_empty_def)
  have "a_star_loop e st0 = a_star_loop e st"
    by (rule steps_loop [OF assms(2)])
  also have "\<dots> = a_star_loop e ?st'"
    using assms(3) stp by (intro loop_step) simp_all
  also have "\<dots> = Some ?st'" by simp
  finally have "a_star_run g s e = Some ?st'"
    using assms(1) by (simp add: a_star_run_def)
  from a_star_result [OF this, of nd] nd have "a_star g s e = Some (if g_cost nd = 0 then - 1 else f_cost nd)"
    by simp
  with nd hf show ?thesis by simp
qed

theorem found_returns_g_cost_witness:
  "\<exists>st0 st. a_star_init two_cities 0 1 = Some st0 \<and> steps 1 3 st0 = Some st \<and>
     place st = At_while \<and> queue_remove (open_set st) = Some (1, []) \<and>
     map_option g_cost (get_node (graph st) 1) = Some 5 \<and>
     map_option f_cost (get_node (graph st) 1) = Some 5 \<and>
     map_option h_cost (get_node (graph st) 1) = Some 0 \<and>
     a_star two_cities 0 1 = Some 5"
proof -
  define st0 where "st0 = the (a_star_init two_cities 0 1)"
  define st where "st = the (steps 1 3 st0)"
  have st0: "a_star_init two_cities 0 1 = Some st0"
    by (simp add: st0_def two_cities_def run_defs)
  have st: "steps 1 3 st0 = Some st"
    by (simp add: st_def st0_def two_cities_def run_defs)
  have pl: "place st = At_while"
    by (simp add: st_def st0_def two_cities_def run_defs)
  have rm: "queue_remove (open_set st) = Some (1, [])"
    by (simp add: st_def st0_def two_cities_def run_defs)
  have gc: "map_option g_cost (get_node (graph st) 1) = Some 5"
    by (simp add: st_def st0_def two_cities_def run_defs sqrt_25)
  from found_returns_g_cost [OF st0 st pl rm] gc
  have "map_option f_cost (get_node (graph st) 1) = Some 5 \<and>
     map_option h_cost (get_node (graph st) 1) = Some 0 \<and> a_star two_cities 0 1 = Some 5"
    by auto
  with st0 st pl rm gc show ?thesis by blast
qed

text \<open>
  C5.  The claim is that a search that dequeues the goal returns the \<^verbatim>\<open>f_cost\<close> of the
  goal, which equals its \<^verbatim>\<open>g_cost\<close>.  On \<open>twin_cities\<close>, two nodes at the same coordinates
  joined by an edge, the goal is relaxed as a neighbour of the start and dequeued three
  steps after the start with \<^verbatim>\<open>f_cost\<close> and \<^verbatim>\<open>g_cost\<close> 0, and the function returns \<open>-1\<close>:
  the test behind the loop takes the \<^verbatim>\<open>g_cost\<close> of 0 for "never reached".
\<close>

theorem found_goal_sentinel:
  "a_star_init twin_cities 0 1 \<bind> steps 1 3 = Some twin_cities_found \<and>
   place twin_cities_found = At_while \<and>
   queue_remove (open_set twin_cities_found) = Some (1, []) \<and>
   fcost (graph twin_cities_found) 1 = Some 0 \<and> gcost (graph twin_cities_found) 1 = Some 0 \<and>
   a_star twin_cities 0 1 = Some (- 1)"
  by (simp add: twin_cities_found_def twin_cities_def run_defs)


section \<open>How often the loop extracts\<close>

definition untouched :: "search \<Rightarrow> nat set" where
  "untouched st = {n. n < length (nodes (graph st)) \<and> n \<notin> seen st}"

definition entries_left :: "search \<Rightarrow> nat" where
  "entries_left st = length (open_set st) + card (untouched st)"

lemma removals_at_return: "place st = At_return \<Longrightarrow> removals e st = 0"
  by (subst removals.simps) simp

lemma removals_step:
  "place st \<noteq> At_return \<Longrightarrow> step e st = Some st' \<Longrightarrow>
   removals e st = (if place st = At_while \<and> open_set st \<noteq> [] then 1 else 0) + removals e st'"
  by (subst removals.simps) (simp add: queue_is_empty_def)

definition tick :: "search \<Rightarrow> nat" where
  "tick st = (if place st = At_while \<and> open_set st \<noteq> [] then 1 else 0)"

lemma removals_bound_aux:
  "P st \<Longrightarrow>
   (\<forall>st st'. P st \<longrightarrow> place st \<noteq> At_return \<longrightarrow> step e st = Some st' \<longrightarrow>
      P st' \<and> tick st + (if place st' = At_return then 0 else pot st') \<le> pot st) \<Longrightarrow>
   removals e st \<le> (if place st = At_return then 0 else pot st)"
proof (induction e st rule: removals.induct)
  case (1 e st)
  show ?case
  proof (cases "place st = At_return")
    case True
    then show ?thesis by (simp add: removals_at_return)
  next
    case False
    show ?thesis
    proof (cases "step e st")
      case None
      with False show ?thesis by (subst removals.simps) simp
    next
      case (Some st')
      from "1.prems" False Some have st': "P st'"
        and le: "tick st + (if place st' = At_return then 0 else pot st') \<le> pot st"
        by blast+
      from "1.IH" [OF False Some st' "1.prems"(2)]
      have "removals e st' \<le> (if place st' = At_return then 0 else pot st')" .
      with le removals_step [OF False Some] False show ?thesis
        by (simp add: tick_def)
    qed
  qed
qed

lemma light_goal_pending:
  assumes "light g0 e st" and "place st = At_while"
  shows "e \<in> pending st"
proof -
  from assms(1) have "valid g0 e" "same_shape g0 (graph st)" "e \<notin> closed_set st"
    by (simp_all add: light_def)
  then obtain nd where "get_node (graph st) e = Some nd"
    using same_shape_valid [of g0 "graph st" e] by (auto simp: valid_iff)
  from get_node_less [OF this] \<open>e \<notin> closed_set st\<close> assms(2) show ?thesis
    by (simp add: pending_def)
qed

lemma work_left_step:
  assumes li: "light g0 e st" and nr: "place st \<noteq> At_return" and stp: "step e st = Some st'"
  shows "tick st + (if place st' = At_return then 0 else work_left st') \<le> work_left st"
  using stp
proof (cases rule: step_cases)
  case return
  with nr show ?thesis by simp
next
  case empty
  then show ?thesis by (simp add: tick_def)
next
  case (found q)
  from light_goal_pending [OF li found(1)] have "0 < card (pending st)"
    by (auto simp: card_gt_0_iff)
  then have "1 \<le> work_left st" by (simp add: work_left_def)
  with found show ?thesis by (simp add: tick_def)
next
  case (dequeue cur q nd)
  from dequeue_work_left(2) [OF dequeue(2,1) get_node_less [OF dequeue(4)], of "neighbors nd"]
  show ?thesis by (simp add: tick_def dequeue(5))
next
  case (close cur)
  with close_work_left [OF close(1)] show ?thesis by (simp add: tick_def set_add_def)
next
  case (relax cur v rest st1)
  with relax_work_left [OF relax(2,1)] show ?thesis by (simp add: tick_def)
qed

lemma removals_le_work_left:
  assumes "light g0 e st"
  shows "removals e st \<le> work_left st"
proof -
  have "removals e st \<le> (if place st = At_return then 0 else work_left st)"
    using assms light_step work_left_step
    by (intro removals_bound_aux [where P = "light g0 e"]) blast+
  then show ?thesis by (cases "place st = At_return") simp_all
qed

lemma init_work_left:
  assumes "a_star_init g s e = Some st0"
  shows "work_left st0 = 2 * length (nodes g)"
proof -
  note io = init_observers [OF assms]
  from init_effect [OF assms] have len: "length (nodes (graph st0)) = length (nodes g)"
    and op: "length (open_set st0) = 1"
    by (auto simp: same_size_def)
  from io(2) have s: "s < length (nodes g)"
    using get_node_less [of g s] by (auto simp: valid_iff)
  have "pending st0 = {..<length (nodes g)}"
    using io(6,7) len by (auto simp: pending_def)
  moreover have "unseen st0 = {..<length (nodes g)} - {s}"
    using io(5,6) len by (auto simp: unseen_def open_ids_def)
  ultimately have "card (pending st0) = length (nodes g)"
    "Suc (card (unseen st0)) = length (nodes g)"
    using s by simp_all
  with op show ?thesis by (simp add: work_left_def)
qed


lemma finite_untouched [simp]: "finite (untouched st)"
  by (simp add: untouched_def)

lemma queue_remove_length:
  assumes "queue_remove q = Some (cur, q')"
  shows "Suc (length q') = length q"
proof -
  from queue_remove_Some [OF assms] obtain p where
    p: "(cur, p) \<in> set q" and q': "q' = remove1 (cur, p) q"
    by blast
  with length_pos_if_in_set [OF p] show ?thesis by (simp add: length_remove1)
qed

lemma entries_left_step:
  assumes li: "light g0 e st" and di: "distinct (map fst (open_set st))"
    and noloop: "\<And>n. \<not> edge g0 n n"
    and nr: "place st \<noteq> At_return" and stp: "step e st = Some st'"
  shows "tick st + (if place st' = At_return then 0 else entries_left st') \<le> entries_left st"
  using stp
proof (cases rule: step_cases)
  case return
  with nr show ?thesis by simp
next
  case empty
  then show ?thesis by (simp add: tick_def)
next
  case (found q)
  from queue_remove_length [OF found(2)] have "1 \<le> entries_left st"
    by (simp add: entries_left_def)
  with found show ?thesis by (simp add: tick_def)
next
  case (dequeue cur q nd)
  note rd = queue_remove_distinct [OF dequeue(2) di]
  have "open_ids st' = open_ids st - {cur}" "cur \<in> open_ids st"
    using rd(2,3) by (force simp: open_ids_eq dequeue(5))+
  then have "seen st' = seen st"
    using dequeue(1) by (auto simp: seen_def in_progress_def dequeue(5))
  then have "untouched st' = untouched st"
    by (simp add: untouched_def dequeue(5))
  with queue_remove_length [OF dequeue(2)] show ?thesis
    by (simp add: tick_def entries_left_def dequeue(5))
next
  case (close cur)
  have "seen st' = seen st"
    using close(1) by (auto simp: seen_def in_progress_def open_ids_def close(2))
  then have "untouched st' = untouched st"
    by (simp add: untouched_def close(2))
  then show ?thesis
    using close(1) by (simp add: tick_def entries_left_def close(2))
next
  case (relax cur v rest st1)
  have ip: "in_progress st' = {cur}" "in_progress st = {cur}"
    using relax(1) by (simp_all add: in_progress_def relax(3))
  have t: "tick st = 0" using relax(1) by (simp add: tick_def)
  have same: "entries_left st' = entries_left st"
    if "same_size (graph st) (graph st1)" "closed_set st1 = closed_set st"
      "open_ids st' = open_ids st" "length (open_set st1) = length (open_set st)"
  proof -
    have "seen st' = seen st" using that ip by (simp add: seen_def relax(3))
    moreover have "length (nodes (graph st')) = length (nodes (graph st))"
      using that(1) by (simp add: same_size_def relax(3))
    ultimately have "untouched st' = untouched st" by (simp add: untouched_def)
    with that(4) show ?thesis by (simp add: entries_left_def relax(3))
  qed
  from relax(2) have "entries_left st' = entries_left st"
  proof (cases rule: relax_cases)
    case (skip nc nv ne)
    show ?thesis
      by (rule same) (simp_all add: skip(6-8) open_ids_def relax(3))
  next
    case (update nc nv ne)
    show ?thesis
    proof (cases "queue_query (open_set st) v")
      case True
      show ?thesis
        by (rule same) (simp_all add: update(7-9) True open_ids_def relax(3))
    next
      case False
      have len: "length (nodes (graph st')) = length (nodes (graph st))"
        using update(7) by (simp add: same_size_def relax(3))
      have "edge g0 cur v" using li relax(1) by (simp add: light_def)
      with noloop [of cur] have "v \<noteq> cur" by auto
      with False update(4) ip have vs: "v \<notin> seen st"
        by (simp add: seen_def open_ids_def)
      have "open_ids st' = insert v (open_ids st)"
        by (auto simp: open_ids_def relax(3) update(8) False)
      then have "seen st' = insert v (seen st)"
        using ip by (auto simp: seen_def relax(3) update(9))
      with len have "untouched st' = untouched st - {v}"
        by (auto simp: untouched_def)
      moreover have "v \<in> untouched st"
        using vs get_node_less [OF update(2)] by (simp add: untouched_def)
      moreover have "0 < card (untouched st)"
        using \<open>v \<in> untouched st\<close> by (auto simp: card_gt_0_iff)
      ultimately have "Suc (card (untouched st')) = card (untouched st)" by simp
      then show ?thesis
        by (simp add: entries_left_def relax(3) update(8) False)
    qed
  qed
  with t relax(3) show ?thesis by simp
qed

lemma removals_le_entries_left:
  assumes "light g0 e st" and "distinct (map fst (open_set st))" and "\<And>n. \<not> edge g0 n n"
  shows "removals e st \<le> entries_left st"
proof -
  let ?P = "\<lambda>st. light g0 e st \<and> distinct (map fst (open_set st))"
  have "removals e st \<le> (if place st = At_return then 0 else entries_left st)"
  proof (rule removals_bound_aux [where P = ?P])
    show "?P st" using assms(1,2) by simp
    show "\<forall>st st'. ?P st \<longrightarrow> place st \<noteq> At_return \<longrightarrow> step e st = Some st' \<longrightarrow>
        ?P st' \<and> tick st + (if place st' = At_return then 0 else entries_left st') \<le> entries_left st"
      using light_step step_distinct entries_left_step [OF _ _ assms(3)] by blast
  qed
  then show ?thesis by (cases "place st = At_return") simp_all
qed

lemma init_entries_left:
  assumes "a_star_init g s e = Some st0"
  shows "entries_left st0 = length (nodes g)"
proof -
  note io = init_observers [OF assms]
  from init_effect [OF assms] have len: "length (nodes (graph st0)) = length (nodes g)"
    and op: "length (open_set st0) = 1"
    by (auto simp: same_size_def)
  from io(2) have s: "s < length (nodes g)"
    using get_node_less [of g s] by (auto simp: valid_iff)
  have "untouched st0 = {..<length (nodes g)} - {s}"
    using io(4) len by (auto simp: untouched_def)
  then have "Suc (card (untouched st0)) = length (nodes g)"
    using s by simp
  with op show ?thesis by (simp add: entries_left_def)
qed

lemma walk_neighbors:
  assumes wf: "well_formed g0"
  shows "light g0 e st \<Longrightarrow> place st = At_neighbors cur ns \<Longrightarrow>
         \<exists>st'. steps e (length ns) st = Some st' \<and> place st' = At_neighbors cur [] \<and>
               closed_set st' = closed_set st"
proof (induction ns arbitrary: st)
  case Nil
  then show ?case by simp
next
  case (Cons v rest)
  from light_step_succeeds [OF Cons.prems(1) wf] obtain st1 where s1: "step e st = Some st1"
    by auto
  then have "place st1 = At_neighbors cur rest \<and> closed_set st1 = closed_set st"
  proof (cases rule: step_cases)
    case (relax c w r st2)
    with Cons.prems(2) have [simp]: "c = cur" "w = v" "r = rest" by simp_all
    from relax(2) have "closed_set st2 = closed_set st"
      by (cases rule: relax_cases) simp_all
    with relax(3) show ?thesis by simp
  qed (use Cons.prems(2) in simp_all)
  moreover have "light g0 e st1" using Cons.prems(1) s1 by (rule light_step)
  ultimately obtain st' where "steps e (length rest) st1 = Some st'"
    "place st' = At_neighbors cur []" "closed_set st' = closed_set st"
    using Cons.IH [of st1] by auto
  with s1 show ?case by auto
qed

lemma loop_iteration:
  assumes wf: "well_formed g0" and li: "light g0 e st" and pl: "place st = At_while"
    and rm: "queue_remove (open_set st) = Some (cur, q)"
  shows "if cur = e then step e st = Some (st\<lparr>open_set := q, place := At_return\<rparr>)
         else \<exists>nd st'. get_node (graph st) cur = Some nd \<and>
                steps e (length (neighbors nd) + 2) st = Some st' \<and>
                place st' = At_while \<and> closed_set st' = insert cur (closed_set st)"
proof (cases "cur = e")
  case True
  have "open_set st \<noteq> []" using rm queue_remove_None [of "open_set st"] by auto
  with True pl rm show ?thesis by (simp add: step_def queue_is_empty_def)
next
  case False
  have ne: "open_set st \<noteq> []" using rm queue_remove_None [of "open_set st"] by auto
  from queue_remove_ids(1) [OF rm] have "cur \<in> seen st" by (simp add: seen_def open_ids_eq)
  with li obtain nd where nd: "get_node (graph st) cur = Some nd"
    using same_shape_valid [of g0 "graph st" cur] by (auto simp: light_def valid_iff)
  let ?st1 = "st\<lparr>open_set := q, place := At_neighbors cur (neighbors nd)\<rparr>"
  have s1: "step e st = Some ?st1"
    using False pl rm ne nd by (simp add: step_def queue_is_empty_def)
  have "light g0 e ?st1" using li s1 by (rule light_step)
  from walk_neighbors [OF wf this, of cur "neighbors nd"] obtain st2 where
    st2: "steps e (length (neighbors nd)) ?st1 = Some st2" "place st2 = At_neighbors cur []"
    "closed_set st2 = closed_set st"
    by auto
  let ?st3 = "st2\<lparr>closed_set := set_add (closed_set st2) cur, place := At_while\<rparr>"
  have s3: "step e st2 = Some ?st3"
    using st2(2) by (simp add: step_def)
  have "steps e 1 st2 = Some ?st3"
    using s3 by simp
  then have "steps e (length (neighbors nd) + 1) ?st1 = Some ?st3"
    unfolding steps_add st2(1) by simp
  then have "steps e (Suc (length (neighbors nd) + 1)) st = Some ?st3"
    by (simp only: steps.simps s1 option.case)
  then have "steps e (length (neighbors nd) + 2) st = Some ?st3"
    by (simp only: Suc_eq_plus1 add.assoc one_add_one)
  moreover have "place ?st3 = At_while" "closed_set ?st3 = insert cur (closed_set st)"
    using st2(3) by (simp_all add: set_add_def)
  ultimately have "\<exists>nd st'. get_node (graph st) cur = Some nd \<and>
                steps e (length (neighbors nd) + 2) st = Some st' \<and>
                place st' = At_while \<and> closed_set st' = insert cur (closed_set st)"
    using nd by (intro exI [of _ nd] exI [of _ ?st3]) simp
  with False show ?thesis by simp
qed

text \<open>
  C10.  The claim bounds the number of extractions by the number of nodes.  A node that
  lists itself as a neighbour is put into the open set while its own neighbours are
  walked, before it is closed, and is extracted a second time: on \<open>loop_triangle\<close>, a
  well-formed graph of three nodes with no two equal priorities in the open set, the
  search from 0 to 2 extracts four times.  What holds: on a well-formed graph
  the search from a valid start to a valid goal returns, after at most twice as many
  extractions as the graph has nodes, and after at most as many as it has nodes when no
  node lists itself as a neighbour.  Each pass through the outer loop that extracts the
  goal leaves the loop, and each other pass walks the neighbours of the extracted node and
  ends with that node added to the closed set; a neighbour that is in the closed set is
  never put into the open set.
\<close>

theorem a_star_terminates:
  assumes "well_formed g" and "valid g s" and "valid g e"
  shows "\<exists>st0 r. a_star_init g s e = Some st0 \<and> a_star g s e = Some r \<and>
           removals e st0 \<le> 2 * length (nodes g) \<and>
           ((\<forall>n. \<not> edge g n n) \<longrightarrow> removals e st0 \<le> length (nodes g)) \<and>
           (\<forall>k st cur q. steps e k st0 = Some st \<longrightarrow> place st = At_while \<longrightarrow>
              queue_remove (open_set st) = Some (cur, q) \<longrightarrow>
              (if cur = e then step e st = Some (st\<lparr>open_set := q, place := At_return\<rparr>)
               else \<exists>nd st'. get_node (graph st) cur = Some nd \<and>
                      steps e (length (neighbors nd) + 2) st = Some st' \<and>
                      place st' = At_while \<and> closed_set st' = insert cur (closed_set st))) \<and>
           (\<forall>k st cur v st'. steps e k st0 = Some st \<longrightarrow> relax cur e v st = Some st' \<longrightarrow>
              v \<in> closed_set st \<longrightarrow> open_set st' = open_set st)"
proof -
  from run_succeeds [OF assms] obtain st0 st k where
    st0: "a_star_init g s e = Some st0" and st: "a_star_run g s e = Some st"
    and k: "steps e k st0 = Some st"
    by blast
  have li: "light g e st'" if "steps e j st0 = Some st'" for j st'
    using steps_invariant [where P = "light g e", OF init_light [OF st0] _ that] light_step
    by blast
  from li [OF k] obtain nd where nd: "get_node (graph st) e = Some nd"
    using assms(3) same_shape_valid [of g "graph st" e] by (auto simp: light_def valid_iff)
  note res = a_star_result [OF st nd]
  have b2: "removals e st0 \<le> 2 * length (nodes g)"
    using removals_le_work_left [OF init_light [OF st0]] init_work_left [OF st0] by simp
  have b1: "removals e st0 \<le> length (nodes g)" if "\<forall>n. \<not> edge g n n"
  proof -
    have "distinct (map fst (open_set st0))"
      using init_open_set [OF st0] by auto
    from removals_le_entries_left [OF init_light [OF st0] this] that init_entries_left [OF st0]
    show ?thesis by simp
  qed
  have it: "if cur = e then step e st' = Some (st'\<lparr>open_set := q, place := At_return\<rparr>)
         else \<exists>nd st''. get_node (graph st') cur = Some nd \<and>
                steps e (length (neighbors nd) + 2) st' = Some st'' \<and>
                place st'' = At_while \<and> closed_set st'' = insert cur (closed_set st')"
    if "steps e j st0 = Some st'" "place st' = At_while"
      "queue_remove (open_set st') = Some (cur, q)" for j st' cur q
    using loop_iteration [OF assms(1) li [OF that(1)] that(2,3)] .
  have cl: "open_set st'' = open_set st'"
    if "relax cur e v st' = Some st''" "v \<in> closed_set st'" for cur v st' st''
    using relax_closed_neighbor [OF that] by simp
  show ?thesis
  proof (intro exI [of _ st0] exI [of _ "if g_cost nd = 0 then - 1 else f_cost nd"] conjI allI impI)
    show "a_star_init g s e = Some st0" by (rule st0)
    show "a_star g s e = Some (if g_cost nd = 0 then - 1 else f_cost nd)" by (rule res)
    show "removals e st0 \<le> 2 * length (nodes g)" by (rule b2)
    show "removals e st0 \<le> length (nodes g)" if "\<forall>n. \<not> edge g n n"
      using that by (rule b1)
    show "if cur = e then step e st' = Some (st'\<lparr>open_set := q, place := At_return\<rparr>)
         else \<exists>nd st''. get_node (graph st') cur = Some nd \<and>
                steps e (length (neighbors nd) + 2) st' = Some st'' \<and>
                place st'' = At_while \<and> closed_set st'' = insert cur (closed_set st')"
      if "steps e j st0 = Some st'" "place st' = At_while"
        "queue_remove (open_set st') = Some (cur, q)" for j st' cur q
      using that by (rule it)
    show "open_set st'' = open_set st'"
      if "steps e j st0 = Some st'" "relax cur e v st' = Some st''" "v \<in> closed_set st'"
      for j cur v st' st''
      using that(2,3) by (rule cl)
  qed
qed

lemma two_cities_no_loops: "\<not> edge two_cities n n"
  by (auto simp: edge_def two_cities_def city_def get_node_def nth_Cons' split: if_splits)

theorem a_star_terminates_witness:
  "well_formed two_cities \<and> valid two_cities 0 \<and> valid two_cities 1 \<and>
   (\<forall>n. \<not> edge two_cities n n) \<and> a_star two_cities 0 1 = Some 5 \<and>
   (\<exists>st0. a_star_init two_cities 0 1 = Some st0 \<and> removals 1 st0 \<le> 2)"
proof -
  have v: "valid two_cities 0" "valid two_cities 1"
    by (simp_all add: valid_def two_cities_def city_def get_node_def)
  have len: "length (nodes two_cities) = 2"
    by (simp add: two_cities_def)
  have ev: "a_star two_cities 0 1 = Some 5"
    by (simp add: two_cities_def search_defs sqrt_25)
  from a_star_terminates [OF two_cities_facts(1) v]
  obtain st0 where st0: "a_star_init two_cities 0 1 = Some st0"
    and b: "(\<forall>n. \<not> edge two_cities n n) \<longrightarrow> removals 1 st0 \<le> length (nodes two_cities)"
    by blast
  from b two_cities_no_loops len have "removals 1 st0 \<le> 2" by simp
  with st0 v ev two_cities_facts(1) two_cities_no_loops show ?thesis by blast
qed

lemma loop_triangle_well_formed:
  "well_formed loop_triangle \<and> fresh loop_triangle \<and> valid loop_triangle 0 \<and>
   valid loop_triangle 2"
  by (simp add: well_formed_def fresh_def valid_def loop_triangle_def city_def get_node_def)

theorem extractions_counterexample:
  "num_nodes loop_triangle = 3 \<and> length (nodes loop_triangle) = 3 \<and>
   a_star loop_triangle 0 2 = Some 7 \<and>
   map_option (removals 2) (a_star_init loop_triangle 0 2) = Some 4"
  by (simp add: loop_triangle_def search_defs removals.simps sqrt_25 sqrt_9 sqrt_16)

section \<open>Concrete searches\<close>

text \<open>
  C8.  On the unit square with corners \<open>(0,0)\<close>, \<open>(1,0)\<close>, \<open>(1,1)\<close>, \<open>(0,1)\<close> and the edges
  0-1, 1-2, 2-3, 3-0 (the graph \<open>unit_square\<close>, with fresh costs), the search from 0 to 2
  returns 2.
\<close>

theorem unit_square_distance: "a_star unit_square 0 2 = Some 2"
  by (simp add: unit_square_def search_defs)

text \<open>
  C2.  The claim is that a search from a node to itself returns 0.  On the graph of one
  node the function returns the sentinel \<open>-1\<close> instead: the goal is dequeued at once and
  its \<^verbatim>\<open>g_cost\<close> is still 0, which the test behind the loop reads as "never reached".
\<close>

theorem start_is_goal_sentinel: "a_star lone_city 0 0 = Some (- 1)"
  by (simp add: lone_city_def search_defs)

end
